theory Spec2Isabelle
  imports Main "HOL-Library.Word"
begin

unbundle bit_operations_syntax

section \<open>The shared heap (core-shared-heap.c)\<close>

text \<open>
  Addresses and \<open>size_t\<close> values are 64-bit words (an LP64 platform, so
  \<open>sizeof(void *) = 8\<close>); \<open>NULL\<close> is the word 0 and \<open>MAP_FAILED\<close> is
  \<open>(void *)-1\<close>.
\<close>

type_synonym addr = "64 word"

definition NULL :: addr where
  "NULL = 0"

definition MAP_FAILED :: addr where
  "MAP_FAILED = - 1"

definition sizeof_ptr :: "64 word" where
  "sizeof_ptr = 8"

definition KB :: "64 word" where
  "KB = 1024"

text \<open>
  \<open>stress_shared_heap_str_t\<close>: the link to the next node followed by the
  characters of the string. The node memory maps the address of a node to
  its contents; the string of the node at \<open>p\<close> starts at \<open>p + sizeof(void *)\<close>.
\<close>

record heap_str =
  next_str :: addr
  str :: string

text \<open>
  The \<open>shared_heap\<close> member of \<open>g_shared\<close>, together with the contents of
  the nodes written into the mapped region.
\<close>

record shared_heap =
  heap :: addr
  lock :: addr
  heap_size :: "64 word"
  offset :: "64 word"
  out_of_memory :: bool
  str_list_head :: addr
  mem :: "addr \<Rightarrow> heap_str"

text \<open>What a call does to the outside world, in program order.\<close>

datatype effect =
    Mmap "64 word"
  | Munmap addr "64 word"
  | Lock_create
  | Lock_destroy addr
  | Pr_inf_out_of_memory
  | Pr_dbg_used "64 word" "64 word"

text \<open>
  \<open>STRESS_MAX_SHARED_HEAP_SIZE\<close>: 16 KB when the compiler has
  \<open>__builtin_constant_p\<close>, 64 KB otherwise.
\<close>

definition STRESS_MAX_SHARED_HEAP_SIZE :: "bool \<Rightarrow> 64 word" where
  "STRESS_MAX_SHARED_HEAP_SIZE have_builtin_constant_p =
    (if have_builtin_constant_p then 16 * KB else 64 * KB)"

text \<open>
  \<open>stress_shared_heap_init\<close>. The page size, the two table sizes
  \<open>STRESS_MISC_METRICS_MAX\<close> and \<open>STRESS_MAX\<close>, the configuration flag and
  the results of \<open>mmap\<close> and \<open>stress_lock_create\<close> are parameters. The
  function does not assign \<open>offset\<close>.
\<close>

definition stress_shared_heap_init ::
  "64 word \<Rightarrow> 64 word \<Rightarrow> 64 word \<Rightarrow> bool \<Rightarrow> addr \<Rightarrow> addr \<Rightarrow> shared_heap
     \<Rightarrow> addr \<times> effect list \<times> shared_heap" where
  "stress_shared_heap_init page_size metrics_max stress_max have_builtin_constant_p
       mmap_result lock_create_result g =
    (let size0 = (metrics_max * (32 + sizeof_ptr) * stress_max) div 2;
         sz = (if size0 < STRESS_MAX_SHARED_HEAP_SIZE have_builtin_constant_p then size0
               else STRESS_MAX_SHARED_HEAP_SIZE have_builtin_constant_p);
         g1 = g\<lparr>out_of_memory := False,
                heap_size := (sz + page_size - 1) AND NOT (page_size - 1),
                str_list_head := NULL,
                heap := mmap_result\<rparr>
     in if heap g1 = MAP_FAILED then (NULL, [Mmap sz], g1\<lparr>lock := NULL\<rparr>)
        else let g2 = g1\<lparr>lock := lock_create_result\<rparr>
             in if lock g2 = NULL
                then (NULL, [Mmap sz, Lock_create, Munmap (heap g2) (heap_size g2)],
                      g2\<lparr>heap := NULL\<rparr>)
                else (lock g2, [Mmap sz, Lock_create], g2))"

text \<open>\<open>stress_shared_heap_deinit\<close>, with the calls and log lines it makes.\<close>

definition stress_shared_heap_deinit :: "shared_heap \<Rightarrow> effect list \<times> shared_heap" where
  "stress_shared_heap_deinit g =
    (let e1 = (if out_of_memory g then [Pr_inf_out_of_memory] else []);
         e2 = (if 0 < offset g then [Pr_dbg_used (offset g) (heap_size g)] else []);
         (e3, g3) = (if heap g \<noteq> NULL
                     then ([Munmap (heap g) (heap_size g)], g\<lparr>heap := NULL\<rparr>)
                     else ([], g));
         (e4, g4) = (if lock g3 \<noteq> NULL
                     then ([Lock_destroy (lock g3)], g3\<lparr>lock := NULL\<rparr>)
                     else ([], g3))
     in (e1 @ e2 @ e3 @ e4, g4\<lparr>out_of_memory := False\<rparr>))"

text \<open>
  \<open>stress_shared_heap_malloc\<close>. \<open>acquired\<close> tells whether
  \<open>stress_lock_acquire\<close> returned a non-negative value. \<open>heap_free\<close> is an
  \<open>ssize_t\<close> and is compared with \<open>(ssize_t)size\<close>, a signed comparison (\<open>sz\<close> is the
  source's \<open>size\<close>).
\<close>

definition stress_shared_heap_malloc ::
  "bool \<Rightarrow> 64 word \<Rightarrow> shared_heap \<Rightarrow> addr \<times> shared_heap" where
  "stress_shared_heap_malloc acquired sz g =
    (if \<not> acquired then (NULL, g)
     else let heap_free = heap_size g - offset g
          in if heap_free <s sz then (NULL, g\<lparr>out_of_memory := True\<rparr>)
             else (heap g + offset g,
                   g\<lparr>offset := offset g + ((sz + sizeof_ptr - 1) AND NOT (sizeof_ptr - 1))\<rparr>))"

text \<open>
  The scan of \<open>stress_shared_heap_dup_const\<close> over the list of nodes:
  \<open>Some (Some p)\<close> when the node at \<open>p\<close> holds the string, \<open>Some None\<close>
  when the end of the list is reached. On a cyclic list without the string
  the loop does not return, which is the value \<open>None\<close>.
\<close>

partial_function (option) str_list_find ::
  "(addr \<Rightarrow> heap_str) \<Rightarrow> addr \<Rightarrow> string \<Rightarrow> addr option option" where
  "str_list_find m heap_str s =
    (if heap_str = NULL then Some None
     else if s = str (m heap_str) then Some (Some heap_str)
     else str_list_find m (next_str (m heap_str)) s)"

declare str_list_find.simps [code]

text \<open>
  \<open>stress_shared_heap_dup_const\<close>. The three booleans are the outcomes of
  the three lock acquisitions: the one before the scan, the one inside
  \<open>stress_shared_heap_malloc\<close>, and the one before the node is linked in.
\<close>

definition stress_shared_heap_dup_const ::
  "bool \<Rightarrow> bool \<Rightarrow> bool \<Rightarrow> string \<Rightarrow> shared_heap \<Rightarrow> (addr \<times> shared_heap) option" where
  "stress_shared_heap_dup_const acquired1 acquired_malloc acquired2 s g =
    (if \<not> acquired1 then Some (NULL, g)
     else case str_list_find (mem g) (str_list_head g) s of
       None \<Rightarrow> None
     | Some (Some found) \<Rightarrow> Some (found + sizeof_ptr, g)
     | Some None \<Rightarrow>
         (let len = of_nat (length s) + 1 + sizeof_ptr;
              (heap_str, g1) = stress_shared_heap_malloc acquired_malloc len g
          in if heap_str = NULL then Some (NULL, g1)
             else let g2 = g1\<lparr>mem := (mem g1)(heap_str := \<lparr>next_str = NULL, str = s\<rparr>)\<rparr>
                  in if \<not> acquired2 then Some (heap_str + sizeof_ptr, g2)
                     else Some (heap_str + sizeof_ptr,
                            g2\<lparr>mem := (mem g2)(heap_str :=
                                   \<lparr>next_str = str_list_head g2, str = s\<rparr>),
                               str_list_head := heap_str\<rparr>)))"

subsection \<open>Sequences of calls and the well-formed heap\<close>

text \<open>
  A run of \<open>stress_shared_heap_malloc\<close> calls, each with the outcome of
  its lock acquisition and its size; the result lists, in call order, the
  pointer returned by each call together with the size asked for.
\<close>

fun mallocs :: "(bool \<times> 64 word) list \<Rightarrow> shared_heap \<Rightarrow> (addr \<times> 64 word) list \<times> shared_heap" where
  "mallocs [] g = ([], g)"
| "mallocs ((acquired, sz) # reqs) g =
    (let (p, g1) = stress_shared_heap_malloc acquired sz g;
         (chunks, g2) = mallocs reqs g1
     in ((p, sz) # chunks, g2))"

text \<open>
  A mixed run of allocator calls. \<open>None\<close> is a scan that does not return.
\<close>

datatype heap_op =
    Malloc bool "64 word"
  | Dup_const bool bool bool string

fun run_op :: "heap_op \<Rightarrow> shared_heap \<Rightarrow> shared_heap option" where
  "run_op (Malloc acquired sz) g = Some (snd (stress_shared_heap_malloc acquired sz g))"
| "run_op (Dup_const a1 am a2 s) g =
    map_option snd (stress_shared_heap_dup_const a1 am a2 s g)"

fun run_ops :: "heap_op list \<Rightarrow> shared_heap \<Rightarrow> shared_heap option" where
  "run_ops [] g = Some g"
| "run_ops (x # xs) g = (case run_op x g of None \<Rightarrow> None | Some g1 \<Rightarrow> run_ops xs g1)"

text \<open>
  \<open>n\<close> calls of \<open>stress_shared_heap_dup_const\<close> on the same string with every
  lock acquisition succeeding; the pointers returned, in call order.
\<close>

fun dup_many :: "nat \<Rightarrow> string \<Rightarrow> shared_heap \<Rightarrow> (addr list \<times> shared_heap) option" where
  "dup_many 0 s g = Some ([], g)"
| "dup_many (Suc n) s g =
    (case stress_shared_heap_dup_const True True True s g of
       None \<Rightarrow> None
     | Some (p, g1) \<Rightarrow>
         (case dup_many n s g1 of
            None \<Rightarrow> None
          | Some (ptrs, g2) \<Rightarrow> Some (p # ptrs, g2)))"

text \<open>
  The region as \<open>mmap\<close> and the allocator leave it: the base is not
  \<open>NULL\<close> and is pointer aligned, the region does not wrap around the
  address space, its size is a multiple of the pointer size below
  \<open>2 ^ 63\<close>, and the offset is a multiple of the pointer size inside it.
\<close>

definition heap_ok :: "shared_heap \<Rightarrow> bool" where
  "heap_ok g =
    (heap g \<noteq> NULL \<and> unat (heap g) mod 8 = 0
     \<and> unat (heap g) + unat (heap_size g) < 2 ^ 64
     \<and> unat (heap_size g) < 2 ^ 63 \<and> unat (heap_size g) mod 8 = 0
     \<and> unat (offset g) \<le> unat (heap_size g) \<and> unat (offset g) mod 8 = 0)"

text \<open>
  \<open>str_list m p ps\<close>: following the \<open>next\<close> links from \<open>p\<close> visits exactly
  the nodes \<open>ps\<close> and then reaches \<open>NULL\<close>.
\<close>

fun str_list :: "(addr \<Rightarrow> heap_str) \<Rightarrow> addr \<Rightarrow> addr list \<Rightarrow> bool" where
  "str_list m p [] = (p = NULL)"
| "str_list m p (q # qs) = (p = q \<and> p \<noteq> NULL \<and> str_list m (next_str (m p)) qs)"

text \<open>
  The well-formed heap: the region is in order and the list of interned
  strings is the chain of nodes \<open>ps\<close>, every one of them allocated below
  the current offset.
\<close>

definition heap_inv :: "shared_heap \<Rightarrow> addr list \<Rightarrow> bool" where
  "heap_inv g ps =
    (heap_ok g \<and> str_list (mem g) (str_list_head g) ps
     \<and> list_all (\<lambda>q. unat q < unat (heap g) + unat (offset g)) ps)"

text \<open>
  The chunk \<open>[p, p + n)\<close> lies inside the mapped region of \<open>g\<close>, and two
  chunks have no byte in common.
\<close>

definition chunk_in_region :: "shared_heap \<Rightarrow> addr \<times> 64 word \<Rightarrow> bool" where
  "chunk_in_region g c =
    (unat (heap g) \<le> unat (fst c)
     \<and> unat (fst c) + unat (snd c) \<le> unat (heap g) + unat (heap_size g))"

definition chunks_disjoint :: "addr \<times> 64 word \<Rightarrow> addr \<times> 64 word \<Rightarrow> bool" where
  "chunks_disjoint c d =
    (unat (fst c) + unat (snd c) \<le> unat (fst d) \<or> unat (fst d) + unat (snd d) \<le> unat (fst c))"

text \<open>The chunks a run really returned: those whose pointer is not \<open>NULL\<close>.\<close>

definition returned :: "(addr \<times> 64 word) list \<Rightarrow> (addr \<times> 64 word) list" where
  "returned chunks = filter (\<lambda>c. fst c \<noteq> NULL) chunks"

fun pairwise_disjoint :: "(addr \<times> 64 word) list \<Rightarrow> bool" where
  "pairwise_disjoint [] = True"
| "pairwise_disjoint (c # cs) = (list_all (chunks_disjoint c) cs \<and> pairwise_disjoint cs)"

text \<open>
  A fresh region of 4096 bytes mapped at address 65536, with an empty list
  of interned strings.
\<close>

definition heap_4k :: shared_heap where
  "heap_4k = \<lparr>heap = 65536, lock = 1, heap_size = 4096, offset = 0, out_of_memory = False,
     str_list_head = NULL, mem = (\<lambda>_. \<lparr>next_str = NULL, str = []\<rparr>)\<rparr>"

text \<open>
  Calls with sizes a 64-bit process can ask for: an allocation below
  \<open>2 ^ 63\<close> bytes (a non-negative \<open>ssize_t\<close>), a string whose node size
  \<open>strlen + 1 + sizeof(void *)\<close> is below \<open>2 ^ 63\<close>.
\<close>

fun op_bounded :: "heap_op \<Rightarrow> bool" where
  "op_bounded (Malloc acquired sz) = (unat sz < 2 ^ 63)"
| "op_bounded (Dup_const a1 am a2 s) = (length s + 9 < 2 ^ 63)"

text \<open>
  Two states of the region of 4096 bytes: one node for \<open>''abc''\<close> written
  at \<open>heap\<close> but not linked into the list, and then a second node for the
  same string at \<open>heap + 16\<close>, which is the head of the list.
\<close>

definition heap_unpublished :: shared_heap where
  "heap_unpublished = heap_4k\<lparr>offset := 16,
     mem := (mem heap_4k)(65536 := \<lparr>next_str = NULL, str = ''abc''\<rparr>)\<rparr>"

definition heap_second_node :: shared_heap where
  "heap_second_node = heap_unpublished\<lparr>offset := 32,
     mem := (mem heap_unpublished)(65552 := \<lparr>next_str = NULL, str = ''abc''\<rparr>),
     str_list_head := 65552\<rparr>"

section \<open>Calls on bad addresses in a child process (stress-sysbadaddr.c)\<close>

text \<open>
  A C \<open>int\<close> is a 32-bit word, compared as a signed number. Signals carry
  their Linux numbers, which the wait status needs.
\<close>

type_synonym cint = "32 word"


definition EXIT_FAILURE :: cint where
  "EXIT_FAILURE = 1"

datatype signal =
  SIGHUP | SIGINT | SIGILL | SIGTRAP | SIGIOT | SIGBUS | SIGFPE | SIGKILL | SIGSEGV
  | SIGALRM | SIGXCPU

fun signo :: "signal \<Rightarrow> cint" where
  "signo SIGHUP = 1"
| "signo SIGINT = 2"
| "signo SIGILL = 4"
| "signo SIGTRAP = 5"
| "signo SIGIOT = 6"
| "signo SIGBUS = 7"
| "signo SIGFPE = 8"
| "signo SIGKILL = 9"
| "signo SIGSEGV = 11"
| "signo SIGALRM = 14"
| "signo SIGXCPU = 24"

text \<open>The table \<open>sigs\<close> (Linux has no \<open>SIGEMT\<close>).\<close>

definition sigs :: "signal list" where
  "sigs = [SIGILL, SIGTRAP, SIGFPE, SIGBUS, SIGSEGV, SIGIOT, SIGALRM, SIGINT, SIGHUP]"

text \<open>
  What a call does in the child: it returns a value and leaves \<open>errno\<close>, or
  a signal is delivered while it runs. A call that hangs is interrupted by
  the interval timer armed before it, which delivers \<open>SIGALRM\<close>.
\<close>

datatype call = Returns cint cint | Signal signal

definition hangs :: call where
  "hangs = Signal SIGALRM"

text \<open>How a process ends: \<open>_exit\<close> with an argument, or death by a signal.\<close>

datatype proc_end = Exited cint | Killed signal

definition stress_badhandler :: "signal \<Rightarrow> proc_end" where
  "stress_badhandler signum = Exited 1"

text \<open>
  A signal delivered in the child once the handlers are installed: the
  signals of \<open>sigs\<close> run \<open>stress_badhandler\<close>, any other one kills.
\<close>

definition deliver :: "signal \<Rightarrow> proc_end" where
  "deliver sig = (if sig \<in> set sigs then stress_badhandler sig else Killed sig)"

text \<open>
  Two of the makers of bad addresses: \<open>unaligned_addr\<close> returns the address
  one byte into its static array \<open>data\<close> of eight 64-bit words, given
  here by the address of the array; \<open>null_addr\<close> returns \<open>NULL\<close>.
\<close>

definition unaligned_addr :: "addr \<Rightarrow> addr" where
  "unaligned_addr data = data + 1"

definition null_addr :: addr where
  "null_addr = NULL"

text \<open>
  Three rows of \<open>bad_syscalls\<close>, over the system calls they make.
  \<open>time\<close> returns a \<open>time_t\<close>, a 64-bit value, which the \<open>return\<close>
  of \<open>bad_time\<close> converts to \<open>int\<close>.
\<close>

datatype long_call = Returns_long "64 word" cint | Signal_long signal

definition bad_open :: "(addr \<Rightarrow> call) \<Rightarrow> addr \<Rightarrow> call" where
  "bad_open sys_open a =
    (case sys_open a of
       Returns fd e \<Rightarrow> Returns fd e
     | Signal sig \<Rightarrow> Signal sig)"

definition bad_read :: "call \<Rightarrow> (addr \<Rightarrow> call) \<Rightarrow> addr \<Rightarrow> call" where
  "bad_read open_dev_zero sys_read a =
    (case open_dev_zero of
       Signal sig \<Rightarrow> Signal sig
     | Returns fd e \<Rightarrow> if - 1 <s fd then sys_read a else Returns 0 e)"

definition bad_time :: "(addr \<Rightarrow> long_call) \<Rightarrow> addr \<Rightarrow> call" where
  "bad_time sys_time a =
    (case sys_time a of
       Returns_long t e \<Rightarrow> Returns (ucast t) e
     | Signal_long sig \<Rightarrow> Signal sig)"

text \<open>
  The results of the calls the child makes before the operation: the
  return values of \<open>stress_drop_capabilities\<close>, of \<open>stress_sighandler\<close> for
  each signal, and of \<open>setitimer\<close>; and \<open>EXIT_NO_RESOURCE\<close> of stress-ng.h.
\<close>

record child_setup =
  exit_no_resource :: cint
  drop_capabilities :: cint
  sighandler :: "signal \<Rightarrow> cint"
  setitimer :: cint

text \<open>The branch \<open>pid == 0\<close> of \<open>stress_do_syscall\<close>.\<close>

definition stress_do_syscall_child ::
  "child_setup \<Rightarrow> (addr \<Rightarrow> call) \<Rightarrow> addr \<Rightarrow> proc_end" where
  "stress_do_syscall_child setup bad_syscall a =
    (if drop_capabilities setup <s 0 then Exited (exit_no_resource setup)
     else if list_ex (\<lambda>sig. sighandler setup sig <s 0) sigs then Exited EXIT_FAILURE
     else if setitimer setup <s 0 then Exited (exit_no_resource setup)
     else case bad_syscall a of
            Returns ret errno \<Rightarrow> Exited (if ret <s 0 then errno else ret)
          | Signal sig \<Rightarrow> deliver sig)"

text \<open>
  The wait status of Linux and the macro \<open>WEXITSTATUS\<close>: the low eight bits
  of the argument of \<open>_exit\<close> in bits 8 to 15, the number of a killing
  signal in the low seven bits.
\<close>

definition wait_status :: "proc_end \<Rightarrow> cint" where
  "wait_status e =
    (case e of
       Exited n \<Rightarrow> push_bit 8 (n AND 255)
     | Killed sig \<Rightarrow> signo sig AND 127)"

definition WEXITSTATUS :: "cint \<Rightarrow> cint" where
  "WEXITSTATUS status = drop_bit 8 (status AND 65280)"

text \<open>
  The parent's side: whether \<open>keep_stressing\<close> holds, whether \<open>fork\<close>
  succeeds, whether the first and the second \<open>waitpid\<close> fail, whether the
  child had ended before \<open>SIGKILL\<close> reached it, and the value \<open>status\<close>
  holds when no \<open>waitpid\<close> stored one.
\<close>

record trial_env =
  t_keep_stressing :: bool
  fork_ok :: bool
  child :: child_setup
  first_wait_fails :: bool
  second_wait_fails :: bool
  child_ended_before_kill :: bool
  status0 :: cint

text \<open>
  In the calling process \<open>stress_do_syscall\<close> returns \<open>rc\<close> (with the
  counter of completed trials) or ends the process.
\<close>

datatype outcome = Return cint nat | Exit proc_end

definition stress_do_syscall ::
  "trial_env \<Rightarrow> nat \<Rightarrow> (addr \<Rightarrow> call) \<Rightarrow> addr \<Rightarrow> outcome" where
  "stress_do_syscall env count bad_syscall a =
    (if \<not> t_keep_stressing env then Return 0 count
     else if \<not> fork_ok env then Exit (Exited (exit_no_resource (child env)))
     else let ended = stress_do_syscall_child (child env) bad_syscall a;
              status =
                (if \<not> first_wait_fails env then wait_status ended
                 else if second_wait_fails env then status0 env
                 else if child_ended_before_kill env then wait_status ended
                 else wait_status (Killed SIGKILL))
          in Return (WEXITSTATUS status) (count + 1))"

text \<open>A child whose preparations all succeed, and a parent that reaps it at once.\<close>

definition setup_ok :: child_setup where
  "setup_ok = \<lparr>exit_no_resource = 3, drop_capabilities = 0, sighandler = (\<lambda>_. 0),
     setitimer = 0\<rparr>"

definition env_ok :: trial_env where
  "env_ok = \<lparr>t_keep_stressing = True, fork_ok = True, child = setup_ok,
     first_wait_fails = False, second_wait_fails = False, child_ended_before_kill = False,
     status0 = 0\<rparr>"

text \<open>
  Concrete system calls: an \<open>open\<close> that fails with \<open>EFAULT\<close> (14), a
  \<open>read\<close> that returns 1024 bytes, a call that returns 0, and a call that
  hangs; and \<open>time\<close> at the second 1700000001 with the array \<open>data\<close> at
  \<open>data_at\<close>: it stores the time when its argument is \<open>NULL\<close> or eight
  bytes inside the array, and returns it, and fails with \<open>EFAULT\<close>
  elsewhere.
\<close>

definition open_efault :: "addr \<Rightarrow> call" where
  "open_efault a = Returns (- 1) 14"

definition data_at :: addr where
  "data_at = 6295616"

definition time_1700000001 :: "addr \<Rightarrow> long_call" where
  "time_1700000001 a =
    (if a = NULL \<or> unat data_at \<le> unat a \<and> unat a + 8 \<le> unat data_at + 64
     then Returns_long 1700000001 0 else Returns_long (- 1) 14)"

definition read_1024 :: "addr \<Rightarrow> call" where
  "read_1024 a = Returns 1024 0"

definition returns_0 :: "addr \<Rightarrow> call" where
  "returns_0 a = Returns 0 0"

definition never_returns :: "addr \<Rightarrow> call" where
  "never_returns a = hangs"

section \<open>The concurrent walker (stress-sysfs.c)\<close>

definition PATH_MAX :: nat where
  "PATH_MAX = 4096"

definition SYS_BUF_SZ :: nat where
  "SYS_BUF_SZ = 4096"

definition dummy_path :: string where
  "dummy_path = ''/sys/kernel/notes''"

datatype d_type = DT_DIR | DT_REG | DT_OTHER

record dirent =
  d_name :: string
  d_type :: d_type

text \<open>
  A call made by the walker thread returns, or raises \<open>SIGSEGV\<close> in that
  thread.
\<close>

datatype 'a sys = Segv | Ret 'a

text \<open>What the run does that can be seen from outside, in program order.\<close>

datatype event =
    Ev_segv_handler
  | Ev_publish string
  | Ev_pr_err_segv string

text \<open>
  The globals of the file. \<open>sysfs_path\<close> is held as the string it points
  to; the storage it points into is not modelled.
\<close>

record walker =
  sysfs_path :: string
  segv_abort :: bool
  drain_kmsg :: bool
  mixup :: "32 word"
  counter :: nat
  events :: "event list"

text \<open>
  What the walker thread asks of its surroundings; every answer may depend
  on the state reached: \<open>g_keep_stressing_flag\<close>, \<open>keep_stressing()\<close>,
  \<open>mwc32()\<close>, \<open>scandir\<close> (\<open>None\<close> when it returns a negative count),
  \<open>stat\<close> (the \<open>st_mode\<close>, \<open>None\<close> on failure), whether
  \<open>shim_pthread_spin_lock\<close> returns 0, and \<open>is_dot_filename\<close>.
\<close>

record walker_env =
  sys_keep_stressing_flag :: "walker \<Rightarrow> bool"
  sys_keep_stressing :: "walker \<Rightarrow> bool"
  sys_mwc32 :: "walker \<Rightarrow> 32 word"
  sys_scandir :: "walker \<Rightarrow> string \<Rightarrow> dirent list option sys"
  sys_stat :: "walker \<Rightarrow> string \<Rightarrow> 32 word option sys"
  sys_spin_lock :: "walker \<Rightarrow> bool"
  sys_is_dot_filename :: "string \<Rightarrow> bool"

text \<open>
  Control leaves a function of the walker thread by returning or by the
  \<open>siglongjmp\<close> of the handler, which carries the state of the globals.
\<close>

datatype ctl = Siglongjmp walker | Normal walker

definition stress_segv_handler :: "walker \<Rightarrow> ctl" where
  "stress_segv_handler st =
    Siglongjmp (st\<lparr>segv_abort := True, events := events st @ [Ev_segv_handler]\<rparr>)"

definition inc_counter :: "walker \<Rightarrow> walker" where
  "inc_counter st = st\<lparr>counter := counter st + 1\<rparr>"

fun strstr :: "string \<Rightarrow> string \<Rightarrow> bool" where
  "strstr [] needle = (needle = [])"
| "strstr (c # cs) needle = (take (length needle) (c # cs) = needle \<or> strstr cs needle)"

definition stress_sys_skip :: "string \<Rightarrow> bool" where
  "stress_sys_skip path = (strstr path ''PNP0A03'' \<and> strstr path ''VMBUS'')"

text \<open>\<open>S_IRGRP | S_IWGRP | S_IROTH | S_IWOTH\<close>, octal 066.\<close>

definition mode_flags :: "32 word" where
  "mode_flags = 54"

text \<open>
  \<open>stress_sys_dir\<close>, and its \<open>for\<close> loop over the entries that \<open>scandir\<close>
  returned. \<open>snprintf\<close> and \<open>shim_strlcpy\<close> keep at most \<open>PATH_MAX - 1\<close>
  characters.
\<close>

function stress_sys_dir :: "walker_env \<Rightarrow> string \<Rightarrow> bool \<Rightarrow> int \<Rightarrow> walker \<Rightarrow> ctl"
  and stress_sys_dir_loop ::
    "walker_env \<Rightarrow> string \<Rightarrow> bool \<Rightarrow> int \<Rightarrow> dirent list \<Rightarrow> walker \<Rightarrow> ctl"
where
  "stress_sys_dir env path recurse depth st =
    (if \<not> sys_keep_stressing_flag env st \<or> segv_abort st then Normal st
     else if depth > 20 then Normal st
     else let st1 = st\<lparr>mixup := sys_mwc32 env st\<rparr>
          in case sys_scandir env st1 path of
               Segv \<Rightarrow> stress_segv_handler st1
             | Ret None \<Rightarrow> Normal st1
             | Ret (Some dlist) \<Rightarrow> stress_sys_dir_loop env path recurse depth dlist st1)"
| "stress_sys_dir_loop env path recurse depth [] st = Normal st"
| "stress_sys_dir_loop env path recurse depth (d # ds) st =
    (if segv_abort st then Normal st
     else if \<not> sys_keep_stressing env st then Normal st
     else if sys_is_dot_filename env (d_name d)
       then stress_sys_dir_loop env path recurse depth ds st
     else let tmp = take (PATH_MAX - 1) (path @ ''/'' @ d_name d)
          in if stress_sys_skip tmp then stress_sys_dir_loop env path recurse depth ds st
             else case d_type d of
               DT_DIR \<Rightarrow>
                 if \<not> recurse then stress_sys_dir_loop env path recurse depth ds st
                 else (case sys_stat env st tmp of
                    Segv \<Rightarrow> stress_segv_handler st
                  | Ret None \<Rightarrow> stress_sys_dir_loop env path recurse depth ds st
                  | Ret (Some st_mode) \<Rightarrow>
                      if st_mode AND mode_flags = 0
                        then stress_sys_dir_loop env path recurse depth ds st
                      else (case stress_sys_dir env tmp recurse (depth + 1) (inc_counter st) of
                          Siglongjmp s \<Rightarrow> Siglongjmp s
                        | Normal st' \<Rightarrow> stress_sys_dir_loop env path recurse depth ds st'))
             | DT_REG \<Rightarrow>
                 (case sys_stat env st tmp of
                    Segv \<Rightarrow> stress_segv_handler st
                  | Ret None \<Rightarrow> stress_sys_dir_loop env path recurse depth ds st
                  | Ret (Some st_mode) \<Rightarrow>
                      if st_mode AND mode_flags = 0
                        then stress_sys_dir_loop env path recurse depth ds st
                      else if \<not> sys_spin_lock env st
                        then stress_sys_dir_loop env path recurse depth ds st
                      else let st' = st\<lparr>sysfs_path := take (PATH_MAX - 1) tmp,
                                         drain_kmsg := False,
                                         events := events st @ [Ev_publish (take (PATH_MAX - 1) tmp)]\<rparr>
                           in stress_sys_dir_loop env path recurse depth ds
                                (if segv_abort st' then st' else inc_counter st'))
             | DT_OTHER \<Rightarrow> stress_sys_dir_loop env path recurse depth ds st)"
  by pat_completeness auto
termination
  by (relation "measures
       [\<lambda>x. case x of Inl (env, path, recurse, depth, st) \<Rightarrow>
                         (if depth > 20 then 0 else 2 * nat (21 - depth) + 3)
                      | Inr (env, path, recurse, depth, ds, st) \<Rightarrow> 2 * nat (21 - depth) + 2,
        \<lambda>x. case x of Inl _ \<Rightarrow> 0
                      | Inr (env, path, recurse, depth, ds, st) \<Rightarrow> length ds]")
     auto






text \<open>
  \<open>ctxt_t\<close> without \<open>args\<close>, and the results of the calls \<open>stress_sysfs\<close>
  makes around the traversal: \<open>stress_sighandler\<close>, \<open>geteuid\<close>, the
  \<open>open\<close> of \<open>/dev/kmsg\<close>, \<open>shim_pthread_spin_init\<close>, \<open>mmap\<close>, and the
  \<open>shim_pthread_spin_lock\<close> taken before the path is cleared; and
  \<open>EXIT_NO_RESOURCE\<close> of stress-ng.h.
\<close>

record ctxt =
  badbuf :: addr
  writeable :: bool
  kmsgfd :: cint

record sysfs_setup =
  ss_exit_no_resource :: cint
  ss_sighandler :: cint
  ss_geteuid :: "32 word"
  ss_open_kmsg :: cint
  ss_spin_init :: cint
  ss_mmap :: addr
  ss_final_lock :: cint

definition stress_sysfs_ctxt :: "sysfs_setup \<Rightarrow> ctxt" where
  "stress_sysfs_ctxt s =
    \<lparr>badbuf = ss_mmap s, writeable = (ss_geteuid s \<noteq> 0), kmsgfd = ss_open_kmsg s\<rparr>"



subsection \<open>The worker\<close>

text \<open>The calls a worker makes on the target, in program order.\<close>

datatype probe =
    Open_rdonly string
  | Open_wronly string
  | Read nat
  | Read_badbuf
  | Write nat
  | Fstat
  | Close
  | Usleep_drain

fun is_write_probe :: "probe \<Rightarrow> bool" where
  "is_write_probe (Open_wronly p) = True"
| "is_write_probe (Write n) = True"
| "is_write_probe p = False"

text \<open>
  One pass of the loop of randomly sized reads asks for a random number,
  reads \<open>g_keep_stressing_flag\<close>, gets the result of \<open>read\<close> and of
  \<open>stress_kmsg_drain\<close>, and learns whether the time budget is spent.
\<close>

record read_step =
  rs_mwc32 :: "32 word"
  rs_keep_stressing_flag :: bool
  rs_read :: int
  rs_kmsg_drain :: bool
  rs_over_threshold :: bool

text \<open>
  What one iteration of the \<open>while\<close> loop of \<open>stress_sys_rw\<close> learns from
  its surroundings, in the order it asks.
\<close>

record iter_env =
  it_keep_stressing_flag :: bool
  it_segv_abort :: bool
  it_spin_lock :: cint
  it_path :: string
  it_keep_stressing_flag2 :: bool
  it_open1 :: cint
  it_over_threshold1 :: bool
  it_reads :: "nat \<Rightarrow> read_step"
  it_verify :: bool
  it_over_threshold2 :: bool
  it_open2 :: cint
  it_read0 :: int
  it_over_threshold3 :: bool
  it_kmsg_drain2 :: bool
  it_read_badbuf :: int
  it_kmsg_drain3 :: bool
  it_over_threshold4 :: bool
  it_open3 :: cint
  it_kmsg_drain_next :: bool
  it_drain_kmsg :: bool

datatype read_exit = Loop_done | Goto_drain | Goto_next

text \<open>
  The loop \<open>while (i < (4096 * SYS_BUF_SZ))\<close>; \<open>k\<close> counts its passes.
\<close>

function read_loop ::
  "(nat \<Rightarrow> read_step) \<Rightarrow> nat \<Rightarrow> int \<Rightarrow> probe list \<Rightarrow> read_exit \<times> int \<times> probe list" where
  "read_loop rs k i acc =
    (if i < 4096 * int SYS_BUF_SZ then
       let r = rs k;
           sz = 1 + int (unat (rs_mwc32 r) mod (SYS_BUF_SZ - 1))
       in if \<not> rs_keep_stressing_flag r then (Loop_done, i, acc)
          else let acc1 = acc @ [Read (nat sz)]
               in if rs_read r < 0 then (Loop_done, i, acc1)
                  else if rs_read r < sz then (Loop_done, i, acc1)
                  else if rs_kmsg_drain r then (Goto_drain, i + sz, acc1 @ [Close])
                  else if rs_over_threshold r then (Goto_next, i + sz, acc1 @ [Close])
                  else read_loop rs (k + 1) (i + sz) acc1
     else (Loop_done, i, acc))"
  by pat_completeness auto
termination
  by (relation "measure (\<lambda>(rs, k, i, acc). nat (4096 * int SYS_BUF_SZ - i))") auto

datatype iter_exit = Continue | Break | Return_false

text \<open>
  The labels \<open>drain\<close>, \<open>next\<close> and \<open>err\<close> of \<open>stress_sys_rw\<close>. After the
  write the code goes to \<open>next\<close> whether or not the time budget is spent.
\<close>

definition sys_rw_drain :: "probe list \<Rightarrow> iter_exit \<times> probe list" where
  "sys_rw_drain ps = (Continue, ps @ [Usleep_drain])"

definition sys_rw_next :: "iter_env \<Rightarrow> probe list \<Rightarrow> iter_exit \<times> probe list" where
  "sys_rw_next e ps =
    (if it_kmsg_drain_next e then sys_rw_drain ps
     else if it_drain_kmsg e then sys_rw_drain ps
     else (Continue, ps))"

definition sys_rw_err :: "ctxt \<Rightarrow> iter_env \<Rightarrow> probe list \<Rightarrow> iter_exit \<times> probe list" where
  "sys_rw_err c e ps =
    (let ps1 = ps @ [Close]
     in if it_over_threshold4 e then sys_rw_next e ps1
        else if writeable c then
          (if it_open3 e <s 0 then sys_rw_next e (ps1 @ [Open_wronly (it_path e)])
           else sys_rw_next e (ps1 @ [Open_wronly (it_path e), Write 0, Close]))
        else sys_rw_next e ps1)"

text \<open>
  The body of the \<open>while\<close> loop of \<open>stress_sys_rw\<close>, from the lock to the
  end of the iteration; \<open>i\<close> is the local that outlives the iterations, and
  \<open>at_i\<close> attaches its value to the way the iteration ends.
\<close>

definition at_i :: "int \<Rightarrow> iter_exit \<times> probe list \<Rightarrow> iter_exit \<times> int \<times> probe list" where
  "at_i i r = (fst r, i, snd r)"

definition sys_rw_body :: "ctxt \<Rightarrow> iter_env \<Rightarrow> int \<Rightarrow> iter_exit \<times> int \<times> probe list" where
  "sys_rw_body c e i =
    (if it_spin_lock e \<noteq> 0 then (Return_false, i, [])
     else if it_path e = [] \<or> \<not> it_keep_stressing_flag2 e then (Break, i, [])
     else if it_open1 e <s 0 then at_i i (sys_rw_next e [Open_rdonly (it_path e)])
     else if it_over_threshold1 e
       then at_i i (sys_rw_next e [Open_rdonly (it_path e), Close])
     else case read_loop (it_reads e) 0 i [Open_rdonly (it_path e)] of
       (Goto_drain, i1, ps) \<Rightarrow> at_i i1 (sys_rw_drain ps)
     | (Goto_next, i1, ps) \<Rightarrow> at_i i1 (sys_rw_next e ps)
     | (Loop_done, i1, ps) \<Rightarrow>
         (let ps1 = ps @ (if it_verify e then [Fstat] else []) @ [Close]
          in if it_over_threshold2 e then at_i i1 (sys_rw_next e ps1)
             else if it_open2 e <s 0
               then at_i i1 (sys_rw_next e (ps1 @ [Open_rdonly (it_path e)]))
             else let ps3 = ps1 @ [Open_rdonly (it_path e), Read 0]
                  in if it_read0 e < 0 then at_i i1 (sys_rw_err c e ps3)
                     else if it_over_threshold3 e then at_i i1 (sys_rw_next e ps3)
                     else if it_kmsg_drain2 e then at_i i1 (sys_rw_drain (ps3 @ [Close]))
                     else if badbuf c \<noteq> NULL \<and> it_read_badbuf e < 0
                       then at_i i1 (sys_rw_err c e (ps3 @ [Read_badbuf]))
                     else let ps4 = ps3 @ (if badbuf c \<noteq> NULL then [Read_badbuf] else [])
                          in if it_kmsg_drain3 e then at_i i1 (sys_rw_drain (ps4 @ [Close]))
                             else at_i i1 (sys_rw_err c e ps4)))"

text \<open>
  \<open>stress_sys_rw\<close>: the probes of at most \<open>n\<close> iterations of its loop, the
  \<open>k\<close>-th iteration asking \<open>env k\<close>. The loop need not end; the probes
  of a run are those of its first \<open>n\<close> iterations, for every \<open>n\<close>.
\<close>

fun sys_rw_loop :: "nat \<Rightarrow> ctxt \<Rightarrow> (nat \<Rightarrow> iter_env) \<Rightarrow> nat \<Rightarrow> int \<Rightarrow> probe list" where
  "sys_rw_loop 0 c env k i = []"
| "sys_rw_loop (Suc n) c env k i =
    (if it_keep_stressing_flag (env k) \<and> \<not> it_segv_abort (env k) then
       (case sys_rw_body c (env k) i of
          (Continue, i1, ps) \<Rightarrow> ps @ sys_rw_loop n c env (k + 1) i1
        | (Break, i1, ps) \<Rightarrow> ps
        | (Return_false, i1, ps) \<Rightarrow> ps)
     else [])"

definition stress_sys_rw :: "nat \<Rightarrow> ctxt \<Rightarrow> (nat \<Rightarrow> iter_env) \<Rightarrow> probe list" where
  "stress_sys_rw n c env = sys_rw_loop n c env 0 0"

text \<open>
  The value of the local \<open>i\<close> at the start of iteration \<open>k\<close> of the loop,
  \<open>None\<close> when the loop ended before it.
\<close>

fun sys_rw_i :: "nat \<Rightarrow> ctxt \<Rightarrow> (nat \<Rightarrow> iter_env) \<Rightarrow> int option" where
  "sys_rw_i 0 c env = Some 0"
| "sys_rw_i (Suc k) c env =
    (case sys_rw_i k c env of
       None \<Rightarrow> None
     | Some i \<Rightarrow>
         if it_keep_stressing_flag (env k) \<and> \<not> it_segv_abort (env k) then
           (case sys_rw_body c (env k) i of
              (Continue, i1, ps) \<Rightarrow> Some i1
            | (Break, i1, ps) \<Rightarrow> None
            | (Return_false, i1, ps) \<Rightarrow> None)
         else None)"

text \<open>
  An iteration reaches the write stage, the block \<open>if (ctxt->writeable)\<close>
  after the label \<open>err\<close>, when the lock is taken, the path is not empty,
  the flag holds, the first \<open>open\<close> succeeds within the time budget, the
  loop of reads ends without a jump, the second \<open>open\<close> succeeds within the
  budget, the reads that follow fail or see no burst of kernel messages
  within the budget, and the budget is not spent at \<open>err\<close>.
\<close>

definition reaches_write_stage :: "ctxt \<Rightarrow> iter_env \<Rightarrow> int \<Rightarrow> bool" where
  "reaches_write_stage c e i =
    (it_spin_lock e = 0 \<and> it_path e \<noteq> [] \<and> it_keep_stressing_flag2 e
     \<and> \<not> it_open1 e <s 0 \<and> \<not> it_over_threshold1 e
     \<and> fst (read_loop (it_reads e) 0 i [Open_rdonly (it_path e)]) = Loop_done
     \<and> \<not> it_over_threshold2 e \<and> \<not> it_open2 e <s 0
     \<and> (it_read0 e < 0
          \<or> \<not> it_over_threshold3 e \<and> \<not> it_kmsg_drain2 e
             \<and> (badbuf c \<noteq> NULL \<and> it_read_badbuf e < 0 \<or> \<not> it_kmsg_drain3 e))
     \<and> \<not> it_over_threshold4 e)"

text \<open>
  Concrete surroundings: a run as user 1000 and a run as root; an iteration
  in which every call succeeds except the read into the bad buffer, and one
  in which the first \<open>open\<close> fails.
\<close>

definition setup_user :: sysfs_setup where
  "setup_user = \<lparr>ss_exit_no_resource = 3, ss_sighandler = 0, ss_geteuid = 1000,
     ss_open_kmsg = - 1, ss_spin_init = 0, ss_mmap = 8192, ss_final_lock = 0\<rparr>"

definition setup_root :: sysfs_setup where
  "setup_root = setup_user\<lparr>ss_geteuid := 0\<rparr>"

definition short_read :: read_step where
  "short_read = \<lparr>rs_mwc32 = 99, rs_keep_stressing_flag = True, rs_read = 10,
     rs_kmsg_drain = False, rs_over_threshold = False\<rparr>"

definition it_all_ok :: iter_env where
  "it_all_ok = \<lparr>it_keep_stressing_flag = True, it_segv_abort = False, it_spin_lock = 0,
     it_path = dummy_path, it_keep_stressing_flag2 = True, it_open1 = 3,
     it_over_threshold1 = False, it_reads = (\<lambda>k. short_read), it_verify = False,
     it_over_threshold2 = False, it_open2 = 3, it_read0 = 0, it_over_threshold3 = False,
     it_kmsg_drain2 = False, it_read_badbuf = - 1, it_kmsg_drain3 = False,
     it_over_threshold4 = False, it_open3 = 3, it_kmsg_drain_next = False,
     it_drain_kmsg = False\<rparr>"

definition it_open_fails :: iter_env where
  "it_open_fails = it_all_ok\<lparr>it_open1 := - 1\<rparr>"

definition env_all_ok :: "nat \<Rightarrow> iter_env" where
  "env_all_ok k = it_all_ok"

definition env_open_fails :: "nat \<Rightarrow> iter_env" where
  "env_open_fails k = it_open_fails"



text \<open>
  Concrete surroundings of the walker: \<open>/sys\<close> holds the file \<open>a\<close> and the
  directory \<open>b\<close>, and reading \<open>/sys/b\<close> raises \<open>SIGSEGV\<close>; the same with
  the \<open>stat\<close> of \<open>/sys/b\<close> raising it; \<open>/sys\<close> holding the file \<open>a\<close>
  alone, whose \<open>stat\<close> raises it once the counter has been bumped, which is
  in the second pass; and a namespace without end, where every directory
  holds one directory \<open>d\<close>.
\<close>

definition fs_fault :: walker_env where
  "fs_fault = \<lparr>sys_keep_stressing_flag = (\<lambda>st. True), sys_keep_stressing = (\<lambda>st. True),
     sys_mwc32 = (\<lambda>st. 0),
     sys_scandir = (\<lambda>st p.
        if p = ''/sys'' then Ret (Some [\<lparr>d_name = ''a'', d_type = DT_REG\<rparr>,
                                         \<lparr>d_name = ''b'', d_type = DT_DIR\<rparr>])
        else if p = ''/sys/b'' then Segv else Ret None),
     sys_stat = (\<lambda>st p. Ret (Some 493)),
     sys_spin_lock = (\<lambda>st. True),
     sys_is_dot_filename = (\<lambda>n. n = ''.'' \<or> n = ''..'')\<rparr>"



definition fs_chain :: walker_env where
  "fs_chain = fs_fault\<lparr>sys_scandir := (\<lambda>st p. Ret (Some [\<lparr>d_name = ''d'', d_type = DT_DIR\<rparr>]))\<rparr>"

definition walker0 :: walker where
  "walker0 = \<lparr>sysfs_path = [], segv_abort = False, drain_kmsg = False, mixup = 0,
     counter = 0, events = []\<rparr>"

definition dir_d :: dirent where
  "dir_d = \<lparr>d_name = ''d'', d_type = DT_DIR\<rparr>"




section \<open>Properties of the shared heap\<close>

subsection \<open>Word arithmetic of the allocator\<close>

lemma unat_and_not_mask:
  "unat ((w :: 64 word) AND NOT (mask k)) = unat w - unat w mod 2 ^ k"
proof -
  have "w AND NOT (mask k) = push_bit k (drop_bit k w)"
    by (rule bit_word_eqI) (auto simp: bit_simps)
  moreover have "push_bit k (drop_bit k w) + take_bit k w = w" by (rule bits_ident)
  ultimately have eq: "w AND NOT (mask k) = w - take_bit k w" by (metis add_diff_cancel_right')
  have tb: "unat (take_bit k w) = unat w mod 2 ^ k"
    unfolding unsigned_take_bit_eq by (rule take_bit_eq_mod)
  have "take_bit k w \<le> w" by (simp only: word_le_nat_alt tb mod_less_eq_dividend)
  then have "unat (w - take_bit k w) = unat w - unat (take_bit k w)" by (rule unat_sub)
  then show ?thesis by (simp only: eq tb)
qed

lemma unat_and_not_7: "unat ((w :: 64 word) AND NOT 7) = unat w - unat w mod 8"
proof -
  have "(7 :: 64 word) = mask 3" by (simp add: mask_eq_exp_minus_1)
  then have "unat (w AND NOT 7) = unat w - unat w mod 2 ^ 3"
    by (simp only: unat_and_not_mask)
  then show ?thesis by simp
qed

lemma round8_unat:
  fixes n :: "64 word"
  assumes "unat n < 2 ^ 63"
  shows "unat ((n + sizeof_ptr - 1) AND NOT (sizeof_ptr - 1)) = ((unat n + 7) div 8) * 8"
proof -
  have "unat (n + 7) = unat n + 7" using assms by (simp add: unat_word_ariths)
  moreover have "n + sizeof_ptr - 1 = n + 7" "sizeof_ptr - 1 = 7"
    by (simp_all add: sizeof_ptr_def)
  ultimately show ?thesis by (simp only: unat_and_not_7 minus_mod_eq_div_mult)
qed

lemma sint_eq_uint_63:
  fixes a :: "64 word"
  assumes "unat a < 2 ^ 63"
  shows "sint a = int (unat a)"
proof -
  have "int (unat a) < int (2 ^ 63)" using assms by (simp only: of_nat_less_iff)
  then have "uint a < 2 ^ 63" by (simp only: uint_nat of_nat_power of_nat_numeral)
  moreover have "- (2 ^ 63) \<le> uint a" by (rule order_trans [of _ 0]) simp_all
  ultimately have "signed_take_bit 63 (uint a) = uint a"
    by (rule signed_take_bit_int_eq_self [rotated])
  moreover have "sint a = signed_take_bit (LENGTH(64) - Suc 0) (uint a)" by (rule sint_uint)
  moreover have "LENGTH(64) - Suc 0 = 63" by simp
  ultimately have "sint a = uint a" by (simp only:)
  then show ?thesis by (simp only: uint_nat)
qed

lemma sless_unat:
  fixes a b :: "64 word"
  assumes "unat a < 2 ^ 63" "unat b < 2 ^ 63"
  shows "(a <s b) = (unat a < unat b)"
  by (simp only: word_sless_alt sint_eq_uint_63 [OF assms(1)] sint_eq_uint_63 [OF assms(2)] of_nat_less_iff)

subsection \<open>One allocation\<close>

lemma len64: "LENGTH(64) = 64" by simp

lemma heap_4k_ok: "heap_ok heap_4k"
  by (simp add: heap_ok_def heap_4k_def NULL_def)

lemma malloc_step:
  assumes ok: "heap_ok g" and sz: "unat sz < 2 ^ 63"
    and m: "stress_shared_heap_malloc a sz g = (p, g')"
  shows "heap_ok g' \<and> heap g' = heap g \<and> heap_size g' = heap_size g
     \<and> unat (offset g) \<le> unat (offset g')
     \<and> mem g' = mem g \<and> str_list_head g' = str_list_head g
     \<and> (p \<noteq> NULL \<longrightarrow> unat p = unat (heap g) + unat (offset g)
            \<and> unat p + unat sz \<le> unat (heap g) + unat (offset g')
            \<and> unat p mod 8 = 0)"
proof (cases "a \<and> \<not> (heap_size g - offset g <s sz)")
  case False
  then have "p = NULL" "g' = g \<or> g' = g\<lparr>out_of_memory := True\<rparr>"
    using m by (auto simp: stress_shared_heap_malloc_def Let_def split: if_splits)
  then show ?thesis using ok by (auto simp: heap_ok_def)
next
  case True
  let ?r = "(sz + sizeof_ptr - 1) AND NOT (sizeof_ptr - 1)"
  have p: "p = heap g + offset g" and g': "g' = g\<lparr>offset := offset g + ?r\<rparr>"
    using True m by (auto simp: stress_shared_heap_malloc_def Let_def)
  have h1: "unat (heap g) + unat (heap_size g) < 2 ^ 64"
    and h2: "unat (heap_size g) < 2 ^ 63"
    and h3: "unat (offset g) \<le> unat (heap_size g)"
    and h4: "unat (heap_size g) mod 8 = 0" "unat (offset g) mod 8 = 0" "unat (heap g) mod 8 = 0"
    using ok by (simp_all add: heap_ok_def)
  have le: "offset g \<le> heap_size g" using h3 by (simp add: word_le_nat_alt)
  have free: "unat (heap_size g - offset g) = unat (heap_size g) - unat (offset g)"
    using le by (rule unat_sub)
  have free63: "unat (heap_size g - offset g) < 2 ^ 63"
    using h2 free by linarith
  have fits: "unat sz \<le> unat (heap_size g) - unat (offset g)"
    using True sless_unat [OF free63 sz] free by simp
  have r: "unat ?r = ((unat sz + 7) div 8) * 8" using sz by (rule round8_unat)
  have free8: "(unat (heap_size g) - unat (offset g)) mod 8 = 0"
    using h3 h4 by (simp add: mod_eq_0_iff_dvd)
  have rfits: "unat ?r \<le> unat (heap_size g) - unat (offset g)"
    using fits free8 r by presburger
  have rsz: "unat sz \<le> unat ?r" using r by presburger
  have pw: "(2::nat) ^ 63 < 2 ^ 64" by simp
  have "unat (offset g) + unat ?r < 2 ^ 64" using rfits h2 h3 pw by linarith
  then have off': "unat (offset g + ?r) = unat (offset g) + unat ?r"
    by (simp only: unat_add_lem [THEN iffD1] len64)
  have "unat (heap g) + unat (offset g) < 2 ^ 64" using h1 h3 by linarith
  then have punat: "unat p = unat (heap g) + unat (offset g)"
    unfolding p by (simp only: unat_add_lem [THEN iffD1] len64)
  have r8: "unat ?r mod 8 = 0" using r by simp
  show ?thesis
    using ok off' rfits rsz punat r8 le
    by (auto simp: g' heap_ok_def mod_add_eq mod_eq_0_iff_dvd)
qed

subsection \<open>Initialisation\<close>

lemma max_heap_size_le: "unat (STRESS_MAX_SHARED_HEAP_SIZE b) \<le> 65536"
  by (simp add: STRESS_MAX_SHARED_HEAP_SIZE_def KB_def)

lemma page_round:
  fixes sz page_size :: "64 word"
  assumes sz: "unat sz \<le> 65536" and k: "k \<le> 32" and ps: "unat page_size = 2 ^ k"
  shows "unat ((sz + page_size - 1) AND NOT (page_size - 1)) = ((unat sz + 2 ^ k - 1) div 2 ^ k) * 2 ^ k"
proof -
  have pk: "(2::nat) ^ k \<le> 2 ^ 32" using k by (rule power_increasing) simp
  have "page_size = of_nat (unat page_size)" by simp
  then have pw: "page_size = 2 ^ k" by (simp only: ps of_nat_power of_nat_numeral)
  have "page_size \<noteq> 0" using ps by (auto simp: unat_eq_0 [symmetric])
  then have m1: "unat (page_size - 1) = 2 ^ k - 1" by (simp add: unat_minus_one ps)
  have "unat sz + unat (page_size - 1) < 2 ^ LENGTH(64)"
    using sz pk by (simp add: m1)
  then have "unat (sz + (page_size - 1)) = unat sz + unat (page_size - 1)"
    by (simp only: unat_add_lem [THEN iffD1])
  then have s: "unat (sz + page_size - 1) = unat sz + 2 ^ k - 1"
    by (simp add: add_diff_eq m1)
  have "(sz + page_size - 1) AND NOT (page_size - 1) = (sz + page_size - 1) AND NOT (mask k)"
    by (simp add: mask_eq_exp_minus_1 pw)
  then show ?thesis by (simp only: unat_and_not_mask s minus_mod_eq_div_mult)
qed

lemma init_heap_inv:
  assumes k: "3 \<le> k" "k \<le> 32" and ps: "unat page_size = 2 ^ k"
    and fresh: "offset g = 0"
    and mm: "mmap_result \<noteq> MAP_FAILED" "mmap_result \<noteq> NULL"
      "unat mmap_result mod 2 ^ k = 0" "unat mmap_result < 2 ^ 63"
    and lk: "lock_create_result \<noteq> NULL"
    and init: "stress_shared_heap_init page_size metrics_max stress_max b
                 mmap_result lock_create_result g = (r, es, g')"
  shows "r = lock_create_result \<and> heap_inv g' [] \<and> heap g' = mmap_result
     \<and> offset g' = 0 \<and> \<not> out_of_memory g'"
proof -
  define size0 where "size0 = (metrics_max * (32 + sizeof_ptr) * stress_max) div 2"
  define sz where "sz = (if size0 < STRESS_MAX_SHARED_HEAP_SIZE b then size0
               else STRESS_MAX_SHARED_HEAP_SIZE b)"
  have szle: "unat sz \<le> 65536"
    using max_heap_size_le [of b]
    by (auto simp: sz_def word_less_nat_alt)
  define hs where "hs = (sz + page_size - 1) AND NOT (page_size - 1)"
  have g': "g' = g\<lparr>out_of_memory := False, heap_size := hs, str_list_head := NULL,
                 heap := mmap_result, lock := lock_create_result\<rparr>"
    and r: "r = lock_create_result"
    using init mm lk
    by (auto simp: stress_shared_heap_init_def Let_def size0_def sz_def hs_def)
  have hsu: "unat hs = ((unat sz + 2 ^ k - 1) div 2 ^ k) * 2 ^ k"
    unfolding hs_def using szle k(2) ps by (rule page_round)
  have pk: "(2::nat) ^ k \<le> 2 ^ 32" using k(2) by (rule power_increasing) simp
  have "(unat sz + 2 ^ k - 1) div 2 ^ k * 2 ^ k \<le> unat sz + 2 ^ k - 1" by simp
  then have hsle: "unat hs \<le> 65536 + 2 ^ 32" using szle pk hsu by linarith
  have "(2::nat) ^ 3 dvd 2 ^ k" using k(1) by (rule le_imp_power_dvd)
  then have d8: "(8::nat) dvd 2 ^ k" by simp
  then have hs8: "unat hs mod 8 = 0" using hsu by (simp add: mod_eq_0_iff_dvd)
  have "2 ^ k dvd unat mmap_result" using mm(3) by (simp add: mod_eq_0_iff_dvd)
  then have "8 dvd unat mmap_result" using d8 by (rule dvd_trans [rotated])
  then have mm8: "unat mmap_result mod 8 = 0" by (simp add: mod_eq_0_iff_dvd)
  have "heap_ok g'"
    using fresh mm hsle hs8 mm8 by (simp add: g' heap_ok_def)
  then show ?thesis using fresh by (simp add: heap_inv_def g' r)
qed

subsection \<open>Runs of allocations\<close>

lemma mallocs_chunks:
  assumes "heap_ok g" and "list_all (\<lambda>r. unat (snd r) < 2 ^ 63) reqs"
    and "mallocs reqs g = (cs, g')"
  shows "heap_ok g' \<and> heap g' = heap g \<and> heap_size g' = heap_size g
     \<and> unat (offset g) \<le> unat (offset g')
     \<and> list_all (\<lambda>c. unat (heap g) + unat (offset g) \<le> unat (fst c)
            \<and> unat (fst c) + unat (snd c) \<le> unat (heap g) + unat (offset g')
            \<and> unat (fst c) mod 8 = 0) (returned cs)
     \<and> pairwise_disjoint (returned cs)"
  using assms
proof (induction reqs arbitrary: g cs g')
  case Nil
  then show ?case by (simp add: returned_def)
next
  case (Cons r reqs)
  obtain a sz where r: "r = (a, sz)" by (cases r)
  obtain p g1 where m: "stress_shared_heap_malloc a sz g = (p, g1)" by (cases "stress_shared_heap_malloc a sz g")
  obtain cs1 g2 where ms: "mallocs reqs g1 = (cs1, g2)" by (cases "mallocs reqs g1")
  have cs: "cs = (p, sz) # cs1" and g': "g' = g2"
    using Cons.prems(3) by (simp_all add: r m ms)
  have sz: "unat sz < 2 ^ 63" using Cons.prems(2) by (simp add: r)
  note st = malloc_step [OF Cons.prems(1) sz m]
  have rest: "list_all (\<lambda>r. unat (snd r) < 2 ^ 63) reqs" using Cons.prems(2) by simp
  have ok1: "heap_ok g1" using st by simp
  note ih = Cons.IH [OF ok1 rest ms]
  have hp: "heap g1 = heap g" and hs: "heap_size g1 = heap_size g"
    and mono: "unat (offset g) \<le> unat (offset g1)" using st by simp_all
  have later: "list_all (\<lambda>c. unat (heap g) + unat (offset g1) \<le> unat (fst c)
            \<and> unat (fst c) + unat (snd c) \<le> unat (heap g) + unat (offset g2)
            \<and> unat (fst c) mod 8 = 0) (returned cs1)"
    using ih by (simp add: hp)
  have mono2: "unat (offset g1) \<le> unat (offset g2)" using ih by simp
  have c1: "heap_ok g' \<and> heap g' = heap g \<and> heap_size g' = heap_size g
     \<and> unat (offset g) \<le> unat (offset g')"
    using ih hp hs mono by (simp add: g')
  have c2: "list_all (\<lambda>c. unat (heap g) + unat (offset g) \<le> unat (fst c)
            \<and> unat (fst c) + unat (snd c) \<le> unat (heap g) + unat (offset g')
            \<and> unat (fst c) mod 8 = 0) (returned cs)"
  proof -
    have "list_all (\<lambda>c. unat (heap g) + unat (offset g) \<le> unat (fst c)
            \<and> unat (fst c) + unat (snd c) \<le> unat (heap g) + unat (offset g2)
            \<and> unat (fst c) mod 8 = 0) (returned cs1)"
      using later mono by (auto simp: list_all_iff)
    moreover have "p \<noteq> NULL \<Longrightarrow> unat (heap g) + unat (offset g) \<le> unat p
            \<and> unat p + unat sz \<le> unat (heap g) + unat (offset g2)
            \<and> unat p mod 8 = 0"
      using st mono2 by auto
    ultimately show ?thesis by (simp add: cs g' returned_def)
  qed
  have c3: "pairwise_disjoint (returned cs)"
  proof (cases "p = NULL")
    case True
    then show ?thesis using ih by (simp add: cs returned_def)
  next
    case False
    then have "unat p + unat sz \<le> unat (heap g) + unat (offset g1)" using st by simp
    then have "list_all (chunks_disjoint (p, sz)) (returned cs1)"
      using later by (auto simp: list_all_iff chunks_disjoint_def)
    then show ?thesis using ih False by (simp add: cs returned_def)
  qed
  show ?case using c1 c2 c3 by simp
qed

lemma sum_list_bound:
  "sum_list (map (\<lambda>r. unat (snd r)) reqs) \<le> n \<Longrightarrow> list_all (\<lambda>r. unat (snd r) \<le> n) reqs"
proof (induction reqs arbitrary: n)
  case Nil
  then show ?case by simp
next
  case (Cons r reqs)
  have "sum_list (map (\<lambda>r. unat (snd r)) reqs) \<le> n" using Cons.prems by simp
  then have "list_all (\<lambda>r. unat (snd r) \<le> n) reqs" by (rule Cons.IH)
  moreover have "unat (snd r) \<le> n" using Cons.prems by simp
  ultimately show ?case by simp
qed

text \<open>
  Claim C1. For every sequence of \<open>stress_shared_heap_malloc\<close> calls on a
  region in order whose sizes add up to at most the capacity of the region,
  every chunk returned (pointer not \<open>NULL\<close>) lies inside the mapped region,
  every returned pointer is a multiple of the pointer size, and no two
  returned chunks overlap. A call may fail to take the lock or find too
  little room; such a call returns \<open>NULL\<close> and no chunk.
\<close>

theorem mallocs_in_region_aligned_disjoint:
  assumes "heap_ok g"
    and "sum_list (map (\<lambda>r. unat (snd r)) reqs) \<le> unat (heap_size g)"
  shows "list_all (chunk_in_region g) (returned (fst (mallocs reqs g)))
     \<and> list_all (\<lambda>c. unat (fst c) mod unat sizeof_ptr = 0) (returned (fst (mallocs reqs g)))
     \<and> pairwise_disjoint (returned (fst (mallocs reqs g)))"
proof -
  obtain cs g' where ms: "mallocs reqs g = (cs, g')" by (cases "mallocs reqs g")
  have "unat (heap_size g) < 2 ^ 63" using assms(1) by (simp add: heap_ok_def)
  then have "list_all (\<lambda>r. unat (snd r) < 2 ^ 63) reqs"
    using sum_list_bound [OF assms(2)] by (auto simp: list_all_iff)
  note l = mallocs_chunks [OF assms(1) this ms]
  have "heap_ok g'" "heap_size g' = heap_size g" using l by simp_all
  then have "unat (offset g') \<le> unat (heap_size g)" by (auto simp: heap_ok_def)
  then have "list_all (chunk_in_region g) (returned cs)"
    using l by (auto simp: list_all_iff chunk_in_region_def)
  then show ?thesis using l by (simp add: ms sizeof_ptr_def list_all_iff)
qed

theorem mallocs_in_region_aligned_disjoint_witness:
  "heap_ok heap_4k
   \<and> sum_list (map (\<lambda>r. unat (snd r))
          [(True, 10 :: 64 word), (True, 3), (False, 5), (True, 4000)])
        \<le> unat (heap_size heap_4k)
   \<and> returned (fst (mallocs [(True, 10), (True, 3), (False, 5), (True, 4000)] heap_4k))
        = [(65536, 10), (65552, 3), (65560, 4000)]
   \<and> list_all (chunk_in_region heap_4k)
        (returned (fst (mallocs [(True, 10), (True, 3), (False, 5), (True, 4000)] heap_4k)))
   \<and> list_all (\<lambda>c. unat (fst c) mod unat sizeof_ptr = 0)
        (returned (fst (mallocs [(True, 10), (True, 3), (False, 5), (True, 4000)] heap_4k)))
   \<and> pairwise_disjoint
        (returned (fst (mallocs [(True, 10), (True, 3), (False, 5), (True, 4000)] heap_4k)))"
proof -
  have h1: "heap_ok heap_4k" by (rule heap_4k_ok)
  have h2: "sum_list (map (\<lambda>r. unat (snd r))
               [(True, 10 :: 64 word), (True, 3), (False, 5), (True, 4000)])
        \<le> unat (heap_size heap_4k)" by (simp add: heap_4k_def)
  have "fst (mallocs [(True, 10), (True, 3), (False, 5), (True, 4000)] heap_4k)
      = [(65536, 10), (65552, 3), (NULL, 5), (65560, 4000)]"
    by (simp add: heap_4k_def stress_shared_heap_malloc_def Let_def sizeof_ptr_def
          word_sless_alt)
  then have r: "returned (fst (mallocs [(True, 10), (True, 3), (False, 5), (True, 4000)] heap_4k))
        = [(65536, 10), (65552, 3), (65560, 4000)]"
    by (simp add: returned_def NULL_def)
  show ?thesis
    using mallocs_in_region_aligned_disjoint [OF h1 h2] h1 h2 r by blast
qed

subsection \<open>The list of interned strings\<close>

lemma str_list_find_list:
  assumes "str_list m p ps"
  shows "(\<exists>q. str_list_find m p s = Some (Some q) \<and> q \<in> set ps \<and> q \<noteq> NULL \<and> str (m q) = s)
       \<or> (str_list_find m p s = Some None \<and> list_all (\<lambda>q. str (m q) \<noteq> s) ps)"
  using assms
proof (induction ps arbitrary: p)
  case Nil
  then show ?case by (simp add: str_list_find.simps)
next
  case (Cons q qs)
  have p: "p = q" "p \<noteq> NULL" and tl: "str_list m (next_str (m p)) qs"
    using Cons.prems by auto
  show ?case
  proof (cases "s = str (m p)")
    case True
    then have "str_list_find m p s = Some (Some p)"
      using p by (subst str_list_find.simps) simp
    then show ?thesis using p True by simp
  next
    case False
    then have "str_list_find m p s = str_list_find m (next_str (m p)) s"
      using p by (subst str_list_find.simps) simp
    then show ?thesis using Cons.IH [OF tl] False p by auto
  qed
qed

lemma str_list_upd:
  assumes "str_list m p ps" and "a \<notin> set ps"
  shows "str_list (m(a := v)) p ps"
  using assms by (induction ps arbitrary: p) auto

lemma str_list_find_upd:
  assumes "str_list m p ps" and "a \<notin> set ps"
  shows "str_list_find (m(a := v)) p s = str_list_find m p s"
  using assms
proof (induction ps arbitrary: p)
  case Nil
  then show ?case by (simp add: str_list_find.simps)
next
  case (Cons q qs)
  have p: "p = q" "p \<noteq> NULL" "p \<noteq> a" and tl: "str_list m (next_str (m p)) qs"
    and a: "a \<notin> set qs"
    using Cons.prems by auto
  have e1: "str_list_find (m(a := v)) p s =
     (if s = str (m p) then Some (Some p) else str_list_find (m(a := v)) (next_str (m p)) s)"
    using p by (subst str_list_find.simps) simp
  have e2: "str_list_find m p s =
     (if s = str (m p) then Some (Some p) else str_list_find m (next_str (m p)) s)"
    using p by (subst str_list_find.simps) simp
  have ih: "str_list_find (m(a := v)) (next_str (m p)) s = str_list_find m (next_str (m p)) s"
    using tl a by (rule Cons.IH)
  show ?case by (simp only: e1 e2 ih)
qed

text \<open>
  Claim C9. \<open>stress_shared_heap_deinit\<close> is idempotent: after one call the
  heap pointer and the lock are \<open>NULL\<close> and the out-of-memory flag is
  clear; a second call leaves that state as it is and makes no \<open>munmap\<close>
  and no \<open>stress_lock_destroy\<close> call (all it can do is print the bytes-used
  debug line again).
\<close>

theorem deinit_idempotent:
  "heap (snd (stress_shared_heap_deinit g)) = NULL
   \<and> lock (snd (stress_shared_heap_deinit g)) = NULL
   \<and> \<not> out_of_memory (snd (stress_shared_heap_deinit g))
   \<and> snd (stress_shared_heap_deinit (snd (stress_shared_heap_deinit g)))
       = snd (stress_shared_heap_deinit g)
   \<and> fst (stress_shared_heap_deinit (snd (stress_shared_heap_deinit g)))
       = (if 0 < offset g then [Pr_dbg_used (offset g) (heap_size g)] else [])"
  by (simp add: stress_shared_heap_deinit_def Let_def split_def)

lemma malloc_oom_mono:
  "out_of_memory g \<Longrightarrow> out_of_memory (snd (stress_shared_heap_malloc a sz g))"
  by (simp add: stress_shared_heap_malloc_def Let_def)

lemma dup_const_oom_mono:
  assumes "out_of_memory g" and "stress_shared_heap_dup_const a1 am a2 s g = Some (p, g')"
  shows "out_of_memory g'"
proof -
  let ?len = "of_nat (length s) + 1 + sizeof_ptr :: 64 word"
  have m: "out_of_memory (snd (stress_shared_heap_malloc am ?len g))"
    using assms(1) by (rule malloc_oom_mono)
  show ?thesis
    using assms m
    by (auto simp: stress_shared_heap_dup_const_def Let_def split_def
             split: if_splits option.splits)
qed

lemma run_ops_oom_mono:
  assumes "out_of_memory g" and "run_ops ops g = Some g'"
  shows "out_of_memory g'"
  using assms
proof (induction ops arbitrary: g)
  case Nil
  then show ?case by simp
next
  case (Cons x xs)
  then obtain g1 where g1: "run_op x g = Some g1" and rest: "run_ops xs g1 = Some g'"
    by (auto split: option.splits)
  have "out_of_memory g1"
  proof (cases x)
    case (Malloc a sz)
    then show ?thesis using g1 Cons.prems(1) malloc_oom_mono [of g a sz] by auto
  next
    case (Dup_const a1 am a2 s)
    then show ?thesis using g1 Cons.prems(1) dup_const_oom_mono [of g a1 am a2 s] by auto
  qed
  then show ?case using rest by (rule Cons.IH)
qed

text \<open>
  Claim C5. When \<open>stress_shared_heap_malloc\<close> fails because the free space
  is smaller than the size asked for, it returns \<open>NULL\<close>, sets the
  out-of-memory flag and leaves the offset unchanged; the flag then stays
  set through every later run of \<open>stress_shared_heap_malloc\<close> and
  \<open>stress_shared_heap_dup_const\<close> calls, whatever their lock outcomes.
\<close>

theorem out_of_memory_sticky:
  assumes "heap_size g - offset g <s sz"
    and "stress_shared_heap_malloc True sz g = (p, g1)"
    and "run_ops ops g1 = Some g'"
  shows "p = NULL \<and> out_of_memory g1 \<and> offset g1 = offset g \<and> out_of_memory g'"
proof -
  have "p = NULL \<and> out_of_memory g1 \<and> offset g1 = offset g"
    using assms(1,2) by (auto simp: stress_shared_heap_malloc_def Let_def)
  then show ?thesis using run_ops_oom_mono [OF _ assms(3)] by simp
qed

theorem out_of_memory_sticky_witness:
  "heap_size heap_4k - offset heap_4k <s 5000
   \<and> stress_shared_heap_malloc True 5000 heap_4k = (NULL, heap_4k\<lparr>out_of_memory := True\<rparr>)
   \<and> (\<exists>g'. run_ops [Malloc True 16, Dup_const True True True ''abc'']
              (heap_4k\<lparr>out_of_memory := True\<rparr>) = Some g'
          \<and> out_of_memory g' \<and> offset g' = 32)"
proof -
  have h1: "heap_size heap_4k - offset heap_4k <s 5000"
    by (simp add: heap_4k_def word_sless_alt)
  have h2: "stress_shared_heap_malloc True 5000 heap_4k = (NULL, heap_4k\<lparr>out_of_memory := True\<rparr>)"
    using h1 by (simp add: stress_shared_heap_malloc_def Let_def)
  obtain g' where h3: "run_ops [Malloc True 16, Dup_const True True True ''abc'']
              (heap_4k\<lparr>out_of_memory := True\<rparr>) = Some g'" and o: "offset g' = 32"
    by (simp add: heap_4k_def stress_shared_heap_malloc_def stress_shared_heap_dup_const_def
          str_list_find.simps Let_def sizeof_ptr_def word_sless_alt NULL_def)
  show ?thesis using out_of_memory_sticky [OF h1 h2 h3] h1 h2 h3 o by simp
qed

subsection \<open>Interning\<close>

lemma strlen_unat:
  assumes "length s + 9 < 2 ^ 63"
  shows "unat (of_nat (length s) + 1 + sizeof_ptr :: 64 word) = length s + 9"
proof -
  have pw: "(2::nat) ^ 63 < 2 ^ 64" by simp
  have "(of_nat (length s + 9) :: 64 word) = of_nat (length s) + 1 + sizeof_ptr"
    by (simp add: sizeof_ptr_def)
  moreover have "length s + 9 < 2 ^ LENGTH(64)" using assms pw by simp
  ultimately show ?thesis by (rule of_nat_inverse)
qed

lemma word_add_right_neq: "(a :: 64 word) \<noteq> b \<Longrightarrow> a + c \<noteq> b + c"
  by simp

lemma heap_inv_below:
  assumes "heap_inv g ps" and "q \<in> set ps"
  shows "unat q < unat (heap g) + unat (offset g)"
  using assms by (simp add: heap_inv_def list_all_iff)

lemma dup_const_step:
  assumes inv: "heap_inv g ps" and bound: "length s + 9 < 2 ^ 63"
  shows "\<exists>p g' ps'. stress_shared_heap_dup_const a1 am a2 s g = Some (p, g')
     \<and> heap_inv g' ps' \<and> heap g' = heap g \<and> heap_size g' = heap_size g
     \<and> unat (offset g) \<le> unat (offset g')
     \<and> (\<forall>n. unat n < unat (heap g) + unat (offset g) \<longrightarrow> mem g' n = mem g n)
     \<and> (p \<noteq> NULL \<longrightarrow> (\<exists>n. p = n + sizeof_ptr \<and> str (mem g' n) = s
             \<and> unat n < unat (heap g) + unat (offset g')))
     \<and> (\<forall>u n. str_list_find (mem g) (str_list_head g) u = Some (Some n)
           \<longrightarrow> str_list_find (mem g') (str_list_head g') u = Some (Some n))"
proof (cases a1)
  case False
  then show ?thesis using inv by (auto simp: stress_shared_heap_dup_const_def)
next
  case a1: True
  have ok: "heap_ok g" and sl: "str_list (mem g) (str_list_head g) ps"
    using inv by (simp_all add: heap_inv_def)
  from str_list_find_list [OF sl, of s]
  show ?thesis
  proof (elim disjE exE conjE)
    fix q
    assume f: "str_list_find (mem g) (str_list_head g) s = Some (Some q)"
      and q: "q \<in> set ps" "str (mem g q) = s"
    have d: "stress_shared_heap_dup_const a1 am a2 s g = Some (q + sizeof_ptr, g)"
      using a1 f by (simp add: stress_shared_heap_dup_const_def)
    have "unat q < unat (heap g) + unat (offset g)" using inv q(1) by (rule heap_inv_below)
    then show ?thesis using d inv q by auto
  next
    assume f: "str_list_find (mem g) (str_list_head g) s = Some None"
      and nf: "list_all (\<lambda>q. str (mem g q) \<noteq> s) ps"
    let ?len = "of_nat (length s) + 1 + sizeof_ptr :: 64 word"
    obtain n gm where m: "stress_shared_heap_malloc am ?len g = (n, gm)"
      by (cases "stress_shared_heap_malloc am ?len g")
    have len: "unat ?len = length s + 9" using bound by (rule strlen_unat)
    then have len63: "unat ?len < 2 ^ 63" using bound by simp
    note st = malloc_step [OF ok len63 m]
    have okm: "heap_ok gm" and hp: "heap gm = heap g" and hs: "heap_size gm = heap_size g"
      and mono: "unat (offset g) \<le> unat (offset gm)" and mm: "mem gm = mem g"
      and hd: "str_list_head gm = str_list_head g"
      using st by simp_all
    have invm: "heap_inv gm ps"
      using inv okm hp mono mm hd by (auto simp: heap_inv_def list_all_iff)
    show ?thesis
    proof (cases "n = NULL")
      case True
      then have "stress_shared_heap_dup_const a1 am a2 s g = Some (NULL, gm)"
        using a1 f m by (simp add: stress_shared_heap_dup_const_def Let_def)
      then show ?thesis using invm hp hs mono mm hd by auto
    next
      case False
      have nu: "unat n = unat (heap g) + unat (offset g)"
        and nend: "unat n + unat ?len \<le> unat (heap g) + unat (offset gm)"
        using st False by simp_all
      have nlt: "unat n < unat (heap g) + unat (offset gm)" using nend len by simp
      have nps: "n \<notin> set ps"
      proof
        assume "n \<in> set ps"
        then have "unat n < unat (heap g) + unat (offset g)" using inv by (rule heap_inv_below [rotated])
        then show False using nu by simp
      qed
      have below: "\<forall>k. unat k < unat (heap g) + unat (offset g) \<longrightarrow> k \<noteq> n"
        using nu by auto
      show ?thesis
      proof (cases a2)
        case False
        let ?g' = "gm\<lparr>mem := (mem gm)(n := \<lparr>next_str = NULL, str = s\<rparr>)\<rparr>"
        have d: "stress_shared_heap_dup_const a1 am a2 s g = Some (n + sizeof_ptr, ?g')"
          using a1 f m False \<open>n \<noteq> NULL\<close>
          by (simp add: stress_shared_heap_dup_const_def Let_def)
        have l': "str_list (mem ?g') (str_list_head ?g') ps"
          using sl nps by (simp add: mm hd str_list_upd)
        have inv': "heap_inv ?g' ps"
          using invm l' by (simp add: heap_inv_def heap_ok_def)
        have fs: "\<forall>u. str_list_find (mem ?g') (str_list_head ?g') u
                 = str_list_find (mem g) (str_list_head g) u"
          using sl nps by (simp add: mm hd str_list_find_upd)
        show ?thesis
          using d inv' hp hs mono below nlt fs by (auto simp: mm intro!: exI [of _ ps])
      next
        case True
        let ?g' = "gm\<lparr>mem := (mem gm)(n := \<lparr>next_str = str_list_head gm, str = s\<rparr>),
                       str_list_head := n\<rparr>"
        have d: "stress_shared_heap_dup_const a1 am a2 s g = Some (n + sizeof_ptr, ?g')"
          using a1 f m True \<open>n \<noteq> NULL\<close>
          by (simp add: stress_shared_heap_dup_const_def Let_def)
        have tl: "str_list (mem ?g') (str_list_head g) ps"
          using sl nps by (simp add: mm str_list_upd)
        have l': "str_list (mem ?g') (str_list_head ?g') (n # ps)"
          using tl \<open>n \<noteq> NULL\<close> by (simp add: hd)
        have "list_all (\<lambda>q. unat q < unat (heap ?g') + unat (offset ?g')) (n # ps)"
          using invm nlt by (simp add: heap_inv_def hp)
        then have inv': "heap_inv ?g' (n # ps)"
          using okm l' by (simp add: heap_inv_def heap_ok_def)
        have fs: "str_list_find (mem ?g') (str_list_head ?g') u = Some (Some k)"
          if u: "str_list_find (mem g) (str_list_head g) u = Some (Some k)" for u k
        proof -
          have "u \<noteq> s" using u f by auto
          then have "str_list_find (mem ?g') n u
               = str_list_find (mem ?g') (str_list_head g) u"
            using \<open>n \<noteq> NULL\<close> by (subst str_list_find.simps) (simp add: hd)
          also have "\<dots> = str_list_find (mem g) (str_list_head g) u"
            using sl nps by (simp add: mm str_list_find_upd)
          finally show ?thesis using u by simp
        qed
        show ?thesis
          using d inv' hp hs mono below nlt fs by (auto simp: mm intro!: exI [of _ "n # ps"])
      qed
    qed
  qed
qed

lemma heap_ptr_nonnull:
  assumes "heap_ok g"
  shows "heap g + offset g \<noteq> NULL"
proof -
  have h: "unat (heap g) + unat (heap_size g) < 2 ^ 64" "unat (offset g) \<le> unat (heap_size g)"
    "heap g \<noteq> NULL"
    using assms by (simp_all add: heap_ok_def)
  then have "unat (heap g) + unat (offset g) < 2 ^ LENGTH(64)" by simp
  then have "unat (heap g + offset g) = unat (heap g) + unat (offset g)"
    by (simp only: unat_add_lem [THEN iffD1])
  moreover have "unat (heap g) \<noteq> 0" using h(3) by (simp add: NULL_def unat_eq_0)
  ultimately have "unat (heap g + offset g) \<noteq> 0" by simp
  then show ?thesis by (auto simp: NULL_def)
qed

lemma dup_const_twice:
  assumes inv: "heap_inv g ps"
  shows "\<exists>p g1. stress_shared_heap_dup_const True True True s g = Some (p, g1)
     \<and> stress_shared_heap_dup_const True True True s g1 = Some (p, g1)
     \<and> (offset g1 = offset g
          \<or> offset g1 = offset g + ((of_nat (length s) + 1 + sizeof_ptr + sizeof_ptr - 1)
                                      AND NOT (sizeof_ptr - 1)))
     \<and> (p \<noteq> NULL \<longrightarrow> (\<exists>n. p = n + sizeof_ptr
            \<and> str_list_find (mem g1) (str_list_head g1) s = Some (Some n)))"
proof -
  have ok: "heap_ok g" and sl: "str_list (mem g) (str_list_head g) ps"
    using inv by (simp_all add: heap_inv_def)
  let ?len = "of_nat (length s) + 1 + sizeof_ptr :: 64 word"
  from str_list_find_list [OF sl, of s]
  show ?thesis
  proof (elim disjE exE conjE)
    fix q
    assume f: "str_list_find (mem g) (str_list_head g) s = Some (Some q)"
    then have "stress_shared_heap_dup_const True True True s g = Some (q + sizeof_ptr, g)"
      by (simp add: stress_shared_heap_dup_const_def)
    then show ?thesis using f by auto
  next
    assume f: "str_list_find (mem g) (str_list_head g) s = Some None"
    show ?thesis
    proof (cases "heap_size g - offset g <s ?len")
      case True
      let ?g1 = "g\<lparr>out_of_memory := True\<rparr>"
      have m: "stress_shared_heap_malloc True ?len g = (NULL, ?g1)"
        using True by (simp add: stress_shared_heap_malloc_def Let_def)
      have m1: "stress_shared_heap_malloc True ?len ?g1 = (NULL, ?g1)"
        using True by (simp add: stress_shared_heap_malloc_def Let_def)
      have "stress_shared_heap_dup_const True True True s g = Some (NULL, ?g1)"
        using f m by (simp add: stress_shared_heap_dup_const_def Let_def)
      moreover have "stress_shared_heap_dup_const True True True s ?g1 = Some (NULL, ?g1)"
        using f m1 by (simp add: stress_shared_heap_dup_const_def Let_def)
      ultimately show ?thesis by simp
    next
      case False
      let ?n = "heap g + offset g"
      let ?gm = "g\<lparr>offset := offset g + ((?len + sizeof_ptr - 1) AND NOT (sizeof_ptr - 1))\<rparr>"
      let ?g1 = "?gm\<lparr>mem := (mem ?gm)(?n := \<lparr>next_str = str_list_head ?gm, str = s\<rparr>),
                     str_list_head := ?n\<rparr>"
      have nn: "?n \<noteq> NULL" using ok by (rule heap_ptr_nonnull)
      have m: "stress_shared_heap_malloc True ?len g = (?n, ?gm)"
        using False by (simp add: stress_shared_heap_malloc_def Let_def)
      have d: "stress_shared_heap_dup_const True True True s g = Some (?n + sizeof_ptr, ?g1)"
        using f m nn by (simp add: stress_shared_heap_dup_const_def Let_def)
      have f1: "str_list_find (mem ?g1) (str_list_head ?g1) s = Some (Some ?n)"
        using nn by (subst str_list_find.simps) simp
      then have "stress_shared_heap_dup_const True True True s ?g1 = Some (?n + sizeof_ptr, ?g1)"
        by (simp add: stress_shared_heap_dup_const_def)
      then show ?thesis using d f1 by simp
    qed
  qed
qed

lemma dup_many_same:
  assumes "stress_shared_heap_dup_const True True True s g1 = Some (p, g1)"
  shows "dup_many n s g1 = Some (replicate n p, g1)"
  using assms by (induction n) simp_all


lemma run_op_stable:
  assumes inv: "heap_inv g ps" and b: "op_bounded x"
  shows "\<exists>g' ps'. run_op x g = Some g' \<and> heap_inv g' ps' \<and> heap g' = heap g
     \<and> unat (offset g) \<le> unat (offset g')
     \<and> (\<forall>n. unat n < unat (heap g) + unat (offset g) \<longrightarrow> mem g' n = mem g n)
     \<and> (\<forall>u n. str_list_find (mem g) (str_list_head g) u = Some (Some n)
           \<longrightarrow> str_list_find (mem g') (str_list_head g') u = Some (Some n))"
proof (cases x)
  case (Malloc a sz)
  obtain p gm where m: "stress_shared_heap_malloc a sz g = (p, gm)"
    by (cases "stress_shared_heap_malloc a sz g")
  have ok: "heap_ok g" using inv by (simp add: heap_inv_def)
  have "unat sz < 2 ^ 63" using b Malloc by simp
  note st = malloc_step [OF ok this m]
  have "heap_inv gm ps" using inv st by (auto simp: heap_inv_def list_all_iff)
  then show ?thesis using st m Malloc by auto
next
  case (Dup_const a1 am a2 s)
  then have "length s + 9 < 2 ^ 63" using b by simp
  from dup_const_step [OF inv this, of a1 am a2]
  show ?thesis using Dup_const by auto
qed

lemma run_ops_stable:
  assumes "heap_inv g ps" and "list_all op_bounded ops"
  shows "\<exists>g' ps'. run_ops ops g = Some g' \<and> heap_inv g' ps' \<and> heap g' = heap g
     \<and> unat (offset g) \<le> unat (offset g')
     \<and> (\<forall>n. unat n < unat (heap g) + unat (offset g) \<longrightarrow> mem g' n = mem g n)
     \<and> (\<forall>u n. str_list_find (mem g) (str_list_head g) u = Some (Some n)
           \<longrightarrow> str_list_find (mem g') (str_list_head g') u = Some (Some n))"
  using assms
proof (induction ops arbitrary: g ps)
  case Nil
  then show ?case by auto
next
  case (Cons x xs)
  have bx: "op_bounded x" and bxs: "list_all op_bounded xs" using Cons.prems(2) by simp_all
  from run_op_stable [OF Cons.prems(1) bx]
  obtain g1 ps1 where s1: "run_op x g = Some g1" "heap_inv g1 ps1" "heap g1 = heap g"
    "unat (offset g) \<le> unat (offset g1)"
    "\<forall>n. unat n < unat (heap g) + unat (offset g) \<longrightarrow> mem g1 n = mem g n"
    "\<forall>u n. str_list_find (mem g) (str_list_head g) u = Some (Some n)
           \<longrightarrow> str_list_find (mem g1) (str_list_head g1) u = Some (Some n)"
    by blast
  from Cons.IH [OF s1(2) bxs]
  obtain g2 ps2 where s2: "run_ops xs g1 = Some g2" "heap_inv g2 ps2" "heap g2 = heap g1"
    "unat (offset g1) \<le> unat (offset g2)"
    "\<forall>n. unat n < unat (heap g1) + unat (offset g1) \<longrightarrow> mem g2 n = mem g1 n"
    "\<forall>u n. str_list_find (mem g1) (str_list_head g1) u = Some (Some n)
           \<longrightarrow> str_list_find (mem g2) (str_list_head g2) u = Some (Some n)"
    by blast
  have "run_ops (x # xs) g = Some g2" using s1(1) s2(1) by simp
  moreover have "\<forall>n. unat n < unat (heap g) + unat (offset g) \<longrightarrow> mem g2 n = mem g n"
    using s1(3,4,5) s2(5) by auto
  moreover have "unat (offset g) \<le> unat (offset g2)" using s1(4) s2(4) by simp
  ultimately show ?case using s2(2,3,6) s1(3,6) by auto
qed

lemma dup_const_distinct_later:
  assumes inv: "heap_inv g ps" and bs: "length s + 9 < 2 ^ 63" and bt: "length t + 9 < 2 ^ 63"
    and ne: "s \<noteq> t" and bo: "list_all op_bounded ops"
    and d1: "stress_shared_heap_dup_const a1 am a2 s g = Some (p1, g1)"
    and r: "run_ops ops g1 = Some g2"
    and d2: "stress_shared_heap_dup_const b1 bm b2 t g2 = Some (p2, g3)"
    and nn: "p1 \<noteq> NULL" "p2 \<noteq> NULL"
  shows "p1 \<noteq> p2"
proof -
  from dup_const_step [OF inv bs, of a1 am a2] d1 nn(1)
  obtain ps1 n1 where inv1: "heap_inv g1 ps1" and h1: "heap g1 = heap g"
    and n1: "p1 = n1 + sizeof_ptr" "str (mem g1 n1) = s"
      "unat n1 < unat (heap g) + unat (offset g1)"
    by auto
  from run_ops_stable [OF inv1 bo] r
  obtain ps2 where inv2: "heap_inv g2 ps2" and h2: "heap g2 = heap g1"
    and o2: "unat (offset g1) \<le> unat (offset g2)"
    and k2: "\<forall>n. unat n < unat (heap g1) + unat (offset g1) \<longrightarrow> mem g2 n = mem g1 n"
    by auto
  from dup_const_step [OF inv2 bt, of b1 bm b2] d2 nn(2)
  obtain n2 where keep: "\<forall>n. unat n < unat (heap g2) + unat (offset g2) \<longrightarrow> mem g3 n = mem g2 n"
    and n2: "p2 = n2 + sizeof_ptr" "str (mem g3 n2) = t"
    by auto
  have "mem g2 n1 = mem g1 n1" using k2 n1(3) h1 by simp
  moreover have "mem g3 n1 = mem g2 n1" using keep n1(3) h1 h2 o2 by simp
  ultimately have "str (mem g3 n1) = s" using n1(2) by simp
  then have "n1 \<noteq> n2" using n2(2) ne by auto
  then show ?thesis unfolding n1(1) n2(1) by (rule word_add_right_neq)
qed

lemma dup_const_same_later:
  assumes inv: "heap_inv g ps" and bs: "length s + 9 < 2 ^ 63" and bo: "list_all op_bounded ops"
    and d1: "stress_shared_heap_dup_const True True True s g = Some (p, g1)"
    and nn: "p \<noteq> NULL"
  shows "\<exists>g2. run_ops ops g1 = Some g2
           \<and> stress_shared_heap_dup_const True True True s g2 = Some (p, g2)"
proof -
  from dup_const_twice [OF inv, of s] d1 nn
  obtain n where n: "p = n + sizeof_ptr"
    "str_list_find (mem g1) (str_list_head g1) s = Some (Some n)" by auto
  from dup_const_step [OF inv bs, of True True True] d1
  obtain ps1 where inv1: "heap_inv g1 ps1" by auto
  from run_ops_stable [OF inv1 bo] n(2)
  obtain g2 where g2: "run_ops ops g1 = Some g2"
    "str_list_find (mem g2) (str_list_head g2) s = Some (Some n)" by blast
  have "stress_shared_heap_dup_const True True True s g2 = Some (p, g2)"
    using g2(2) n(1) by (simp add: stress_shared_heap_dup_const_def)
  then show ?thesis using g2(1) by simp
qed

lemma fifty_identical:
  assumes ok: "heap_ok g" and s: "length s = 8"
    and fresh: "str_list_head g = NULL" "offset g = 0" "heap_size g = 4096"
  shows "\<exists>g1. dup_many 50 s g = Some (replicate 50 (heap g + sizeof_ptr), g1)
           \<and> offset g1 = 24 \<and> str_list (mem g1) (str_list_head g1) [heap g]"
proof -
  let ?g1 = "g\<lparr>offset := 24, mem := (mem g)(heap g := \<lparr>next_str = NULL, str = s\<rparr>),
                str_list_head := heap g\<rparr>"
  have nn: "heap g \<noteq> NULL" using ok by (simp add: heap_ok_def)
  have f: "str_list_find (mem g) (str_list_head g) s = Some None"
    by (subst str_list_find.simps) (simp add: fresh)
  have m: "stress_shared_heap_malloc True (of_nat (length s) + 1 + sizeof_ptr) g
         = (heap g, g\<lparr>offset := 24\<rparr>)"
    by (simp add: stress_shared_heap_malloc_def Let_def s fresh sizeof_ptr_def word_sless_alt)
  have d: "stress_shared_heap_dup_const True True True s g = Some (heap g + sizeof_ptr, ?g1)"
    using f m nn by (simp add: stress_shared_heap_dup_const_def Let_def fresh)
  have f1: "str_list_find (mem ?g1) (str_list_head ?g1) s = Some (Some (heap g))"
    using nn by (subst str_list_find.simps) simp
  then have d1: "stress_shared_heap_dup_const True True True s ?g1 = Some (heap g + sizeof_ptr, ?g1)"
    by (simp add: stress_shared_heap_dup_const_def)
  have "dup_many 49 s ?g1 = Some (replicate 49 (heap g + sizeof_ptr), ?g1)"
    using d1 by (rule dup_many_same)
  moreover have "dup_many 50 s g = (case dup_many 49 s ?g1 of None \<Rightarrow> None
       | Some (ptrs, g2) \<Rightarrow> Some ((heap g + sizeof_ptr) # ptrs, g2))"
  proof -
    have "(50::nat) = Suc 49" by simp
    then show ?thesis using d by (simp only: dup_many.simps option.case prod.case)
  qed
  moreover have "(heap g + sizeof_ptr) # replicate 49 (heap g + sizeof_ptr)
      = replicate 50 (heap g + sizeof_ptr)"
  proof -
    have "(50::nat) = Suc 49" by simp
    then show ?thesis by (simp only: replicate_Suc)
  qed
  ultimately have "dup_many 50 s g = Some (replicate 50 (heap g + sizeof_ptr), ?g1)" by simp
  then show ?thesis using nn by simp
qed

lemma heap_4k_inv: "heap_inv heap_4k []"
  using heap_4k_ok by (simp add: heap_inv_def heap_4k_def)

text \<open>
  Claim C2, as the code has it. On a well-formed heap, two
  \<open>stress_shared_heap_dup_const\<close> calls on equal strings in which every
  lock acquisition succeeds return the same pointer, whether they follow
  each other or other allocator calls come between them, the second of two
  consecutive calls leaves the heap as it is, and the first advances the
  offset by at most one rounded node. Calls on different strings that both
  return a pointer return different pointers (whatever the lock outcomes).
  On a fresh region of 4096 bytes, fifty calls on the same 8-byte string
  return fifty times the pointer \<open>heap + sizeof(void *)\<close>, leave the
  offset at 24, one rounded node of \<open>8 + 1 + 8\<close> bytes, and the list
  holding the single node at \<open>heap\<close>.
\<close>

theorem dup_const_interns:
  assumes inv: "heap_inv g ps" and bs: "length s + 9 < 2 ^ 63" and bt: "length t + 9 < 2 ^ 63"
  shows "(\<exists>p g1. stress_shared_heap_dup_const True True True s g = Some (p, g1)
            \<and> stress_shared_heap_dup_const True True True s g1 = Some (p, g1)
            \<and> (offset g1 = offset g
                 \<or> offset g1 = offset g
                      + ((of_nat (length s) + 1 + sizeof_ptr + sizeof_ptr - 1)
                           AND NOT (sizeof_ptr - 1)))
            \<and> (p \<noteq> NULL \<longrightarrow> (\<forall>ops. list_all op_bounded ops \<longrightarrow>
                  (\<exists>g2. run_ops ops g1 = Some g2
                     \<and> stress_shared_heap_dup_const True True True s g2 = Some (p, g2)))))
     \<and> (s \<noteq> t \<longrightarrow> (\<forall>a1 am a2 b1 bm b2 ops p1 g1 g2 p2 g3.
            list_all op_bounded ops
            \<longrightarrow> stress_shared_heap_dup_const a1 am a2 s g = Some (p1, g1)
            \<longrightarrow> run_ops ops g1 = Some g2
            \<longrightarrow> stress_shared_heap_dup_const b1 bm b2 t g2 = Some (p2, g3)
            \<longrightarrow> p1 \<noteq> NULL \<longrightarrow> p2 \<noteq> NULL \<longrightarrow> p1 \<noteq> p2))
     \<and> (length s = 8 \<and> str_list_head g = NULL \<and> offset g = 0 \<and> heap_size g = 4096
          \<longrightarrow> (\<exists>g1. dup_many 50 s g = Some (replicate 50 (heap g + sizeof_ptr), g1)
                  \<and> offset g1 = 24 \<and> str_list (mem g1) (str_list_head g1) [heap g]))"
proof (intro conjI)
  from dup_const_twice [OF inv, of s]
  obtain p g1 where d: "stress_shared_heap_dup_const True True True s g = Some (p, g1)"
    "stress_shared_heap_dup_const True True True s g1 = Some (p, g1)"
    "offset g1 = offset g
       \<or> offset g1 = offset g
            + ((of_nat (length s) + 1 + sizeof_ptr + sizeof_ptr - 1) AND NOT (sizeof_ptr - 1))"
    by blast
  have "\<exists>g2. run_ops ops g1 = Some g2
          \<and> stress_shared_heap_dup_const True True True s g2 = Some (p, g2)"
    if "p \<noteq> NULL" "list_all op_bounded ops" for ops
    using inv bs that(2) d(1) that(1) by (rule dup_const_same_later)
  then show "\<exists>p g1. stress_shared_heap_dup_const True True True s g = Some (p, g1)
            \<and> stress_shared_heap_dup_const True True True s g1 = Some (p, g1)
            \<and> (offset g1 = offset g
                 \<or> offset g1 = offset g
                      + ((of_nat (length s) + 1 + sizeof_ptr + sizeof_ptr - 1)
                           AND NOT (sizeof_ptr - 1)))
            \<and> (p \<noteq> NULL \<longrightarrow> (\<forall>ops. list_all op_bounded ops \<longrightarrow>
                  (\<exists>g2. run_ops ops g1 = Some g2
                     \<and> stress_shared_heap_dup_const True True True s g2 = Some (p, g2))))"
    using d by blast
next
  show "s \<noteq> t \<longrightarrow> (\<forall>a1 am a2 b1 bm b2 ops p1 g1 g2 p2 g3.
            list_all op_bounded ops
            \<longrightarrow> stress_shared_heap_dup_const a1 am a2 s g = Some (p1, g1)
            \<longrightarrow> run_ops ops g1 = Some g2
            \<longrightarrow> stress_shared_heap_dup_const b1 bm b2 t g2 = Some (p2, g3)
            \<longrightarrow> p1 \<noteq> NULL \<longrightarrow> p2 \<noteq> NULL \<longrightarrow> p1 \<noteq> p2)"
    using dup_const_distinct_later [OF inv bs bt] by blast
next
  have ok: "heap_ok g" using inv by (simp add: heap_inv_def)
  show "length s = 8 \<and> str_list_head g = NULL \<and> offset g = 0 \<and> heap_size g = 4096
          \<longrightarrow> (\<exists>g1. dup_many 50 s g = Some (replicate 50 (heap g + sizeof_ptr), g1)
                  \<and> offset g1 = 24 \<and> str_list (mem g1) (str_list_head g1) [heap g])"
    using fifty_identical [OF ok] by blast
qed

theorem dup_const_interns_witness:
  "heap_inv heap_4k [] \<and> length ''abcdefgh'' + 9 < (2::nat) ^ 63 \<and> length ''x'' + 9 < (2::nat) ^ 63
   \<and> (\<exists>g1 g2. stress_shared_heap_dup_const True True True ''abcdefgh'' heap_4k = Some (65544, g1)
         \<and> stress_shared_heap_dup_const True True True ''abcdefgh'' g1 = Some (65544, g1)
         \<and> offset g1 = 24
         \<and> stress_shared_heap_dup_const True True True ''x'' g1 = Some (65568, g2)
         \<and> stress_shared_heap_dup_const True True True ''abcdefgh'' g2 = Some (65544, g2)
         \<and> (65544 :: 64 word) \<noteq> 65568)
   \<and> (\<exists>g1. dup_many 50 ''abcdefgh'' heap_4k = Some (replicate 50 65544, g1) \<and> offset g1 = 24
         \<and> str_list (mem g1) (str_list_head g1) [65536])"
proof -
  have h1: "heap_inv heap_4k []" by (rule heap_4k_inv)
  have h2: "length ''abcdefgh'' + 9 < (2::nat) ^ 63" by simp
  have h3: "length ''x'' + 9 < (2::nat) ^ 63" by simp
  note t = dup_const_interns [OF h1 h2 h3]
  define g1 where "g1 = heap_4k\<lparr>offset := 24,
      mem := (mem heap_4k)(65536 := \<lparr>next_str = NULL, str = ''abcdefgh''\<rparr>),
      str_list_head := 65536\<rparr>"
  define g2 where "g2 = g1\<lparr>offset := 40,
      mem := (mem g1)(65560 := \<lparr>next_str = 65536, str = ''x''\<rparr>),
      str_list_head := 65560\<rparr>"
  have d1: "stress_shared_heap_dup_const True True True ''abcdefgh'' heap_4k = Some (65544, g1)"
    by (simp add: stress_shared_heap_dup_const_def stress_shared_heap_malloc_def heap_4k_def
          g1_def str_list_find.simps Let_def sizeof_ptr_def word_sless_alt NULL_def)
  have o1: "offset g1 = 24" by (simp add: g1_def)
  have d2: "stress_shared_heap_dup_const True True True ''x'' g1 = Some (65568, g2)"
    by (simp add: stress_shared_heap_dup_const_def stress_shared_heap_malloc_def heap_4k_def
          g1_def g2_def str_list_find.simps Let_def sizeof_ptr_def word_sless_alt NULL_def)
  have r: "run_ops [Dup_const True True True ''x''] g1 = Some g2" using d2 by simp
  have b: "list_all op_bounded [Dup_const True True True ''x'']" by simp
  have nn: "(65544 :: 64 word) \<noteq> NULL" by (simp add: NULL_def)
  have same: "stress_shared_heap_dup_const True True True ''abcdefgh'' g1 = Some (65544, g1)"
    using t d1 by auto
  have later: "stress_shared_heap_dup_const True True True ''abcdefgh'' g2 = Some (65544, g2)"
    using t d1 nn b r by (metis option.inject prod.inject)
  have ne: "''abcdefgh'' \<noteq> ''x''" by simp
  have b0: "list_all op_bounded []" by simp
  have r0: "run_ops [] g1 = Some g1" by simp
  have nn2: "(65568 :: 64 word) \<noteq> NULL" by (simp add: NULL_def)
  have diff: "(65544 :: 64 word) \<noteq> 65568"
    using t ne b0 d1 r0 d2 nn nn2 by blast
  have fresh: "length ''abcdefgh'' = 8 \<and> str_list_head heap_4k = NULL \<and> offset heap_4k = 0
      \<and> heap_size heap_4k = 4096" by (simp add: heap_4k_def)
  have "heap heap_4k + sizeof_ptr = 65544" "heap heap_4k = 65536"
    by (simp_all add: heap_4k_def sizeof_ptr_def)
  then have fifty: "\<exists>g1. dup_many 50 ''abcdefgh'' heap_4k = Some (replicate 50 65544, g1)
         \<and> offset g1 = 24 \<and> str_list (mem g1) (str_list_head g1) [65536]"
    using t fresh by metis
  show ?thesis using h1 h2 h3 d1 same o1 d2 later diff fifty by blast
qed

text \<open>
  Claim C2 as stated fails for two calls with equal content when a lock
  acquisition fails: on the fresh region of 4096 bytes, a call on
  \<open>''abc''\<close> whose second acquisition fails returns \<open>heap + 8\<close> and leaves
  its node out of the list, and the next call on \<open>''abc''\<close>, with every
  acquisition succeeding, allocates a second node and returns \<open>heap + 24\<close>;
  the offset has advanced by two rounded nodes of 16 bytes.
\<close>

theorem dup_const_equal_content_counterexample:
  "stress_shared_heap_dup_const True True False ''abc'' heap_4k = Some (65544, heap_unpublished)
   \<and> stress_shared_heap_dup_const True True True ''abc'' heap_unpublished
       = Some (65560, heap_second_node)
   \<and> (65544 :: addr) \<noteq> 65560
   \<and> offset heap_4k = 0 \<and> offset heap_unpublished = 16 \<and> offset heap_second_node = 32"
  by (simp add: stress_shared_heap_dup_const_def stress_shared_heap_malloc_def heap_4k_def
        heap_unpublished_def heap_second_node_def str_list_find.simps Let_def sizeof_ptr_def
        word_sless_alt NULL_def)

text \<open>
  Claim C6. When \<open>stress_shared_heap_dup_const\<close> finds no node with the
  string, the allocation of the node succeeds and the second lock
  acquisition fails, the call returns the pointer to the string of the new
  node, which holds the copied string inside the region; the head of the
  list and the list are unchanged, a later scan for the string still finds
  nothing, and a later call on the same string does not return this
  pointer.
\<close>

theorem dup_const_second_lock_fails:
  assumes inv: "heap_inv g ps" and bs: "length s + 9 < 2 ^ 63"
    and nf: "str_list_find (mem g) (str_list_head g) s = Some None"
    and m: "stress_shared_heap_malloc True (of_nat (length s) + 1 + sizeof_ptr) g = (n, gm)"
    and nn: "n \<noteq> NULL"
  shows "\<exists>g'. stress_shared_heap_dup_const True True False s g = Some (n + sizeof_ptr, g')
     \<and> n + sizeof_ptr \<noteq> NULL
     \<and> str (mem g' n) = s \<and> next_str (mem g' n) = NULL
     \<and> chunk_in_region g' (n, of_nat (length s) + 1 + sizeof_ptr)
     \<and> str_list_head g' = str_list_head g
     \<and> str_list (mem g') (str_list_head g') ps
     \<and> str_list_find (mem g') (str_list_head g') s = Some None
     \<and> (\<forall>p2 g2. stress_shared_heap_dup_const True True True s g' = Some (p2, g2)
            \<longrightarrow> p2 \<noteq> n + sizeof_ptr)"
proof -
  let ?len = "of_nat (length s) + 1 + sizeof_ptr :: 64 word"
  let ?g' = "gm\<lparr>mem := (mem gm)(n := \<lparr>next_str = NULL, str = s\<rparr>)\<rparr>"
  have ok: "heap_ok g" and sl: "str_list (mem g) (str_list_head g) ps"
    using inv by (simp_all add: heap_inv_def)
  have len: "unat ?len = length s + 9" using bs by (rule strlen_unat)
  then have len63: "unat ?len < 2 ^ 63" using bs by simp
  note st = malloc_step [OF ok len63 m]
  have okm: "heap_ok gm" and hp: "heap gm = heap g" and hs: "heap_size gm = heap_size g"
    and mm: "mem gm = mem g" and hd: "str_list_head gm = str_list_head g"
    and nu: "unat n = unat (heap g) + unat (offset g)"
    and nend: "unat n + unat ?len \<le> unat (heap g) + unat (offset gm)"
    using st nn by simp_all
  have d: "stress_shared_heap_dup_const True True False s g = Some (n + sizeof_ptr, ?g')"
    using nf m nn by (simp add: stress_shared_heap_dup_const_def Let_def)
  have nps: "n \<notin> set ps"
  proof
    assume "n \<in> set ps"
    then have "unat n < unat (heap g) + unat (offset g)" using inv by (rule heap_inv_below [rotated])
    then show False using nu by simp
  qed
  have l': "str_list (mem ?g') (str_list_head ?g') ps"
    using sl nps by (simp add: mm hd str_list_upd)
  have f': "str_list_find (mem ?g') (str_list_head ?g') s = Some None"
    using sl nps nf by (simp add: mm hd str_list_find_upd)
  have top: "unat (heap g) + unat (offset gm) < 2 ^ 64"
    using okm hp by (simp add: heap_ok_def)
  have "unat n + unat sizeof_ptr < 2 ^ LENGTH(64)"
    using nend len top by (simp add: sizeof_ptr_def)
  then have p8: "unat (n + sizeof_ptr) = unat n + 8"
    by (simp only: unat_add_lem [THEN iffD1]) (simp add: sizeof_ptr_def)
  then have pnn: "n + sizeof_ptr \<noteq> NULL" by (auto simp: NULL_def)
  have reg: "chunk_in_region ?g' (n, ?len)"
    using nu nend okm hp by (simp add: chunk_in_region_def heap_ok_def)
  have later: "p2 \<noteq> n + sizeof_ptr"
    if d2: "stress_shared_heap_dup_const True True True s ?g' = Some (p2, g2)" for p2 g2
  proof (cases "p2 = NULL")
    case True
    then show ?thesis using pnn by simp
  next
    case False
    have inv': "heap_inv ?g' ps"
      using okm l' inv hp nu nend
      by (auto simp: heap_inv_def heap_ok_def list_all_iff)
    obtain n2 g3 where m2: "stress_shared_heap_malloc True ?len ?g' = (n2, g3)"
      by (cases "stress_shared_heap_malloc True ?len ?g'")
    have ok': "heap_ok ?g'" using okm by (simp add: heap_ok_def)
    note st2 = malloc_step [OF ok' len63 m2]
    have "p2 = n2 + sizeof_ptr \<and> n2 \<noteq> NULL"
      using d2 f' m2 False
      by (auto simp: stress_shared_heap_dup_const_def Let_def split: if_splits)
    moreover from this have "unat n2 = unat (heap g) + unat (offset gm)"
      using st2 hp by simp
    ultimately have "n2 \<noteq> n \<and> p2 = n2 + sizeof_ptr" using nend len by auto
    then show ?thesis by simp
  qed
  show ?thesis using d pnn l' f' reg later by (auto simp: hd)
qed

theorem dup_const_second_lock_fails_witness:
  "heap_inv heap_4k [] \<and> length ''abc'' + 9 < (2::nat) ^ 63
   \<and> str_list_find (mem heap_4k) (str_list_head heap_4k) ''abc'' = Some None
   \<and> stress_shared_heap_malloc True (of_nat (length ''abc'') + 1 + sizeof_ptr) heap_4k
        = (65536, heap_4k\<lparr>offset := 16\<rparr>)
   \<and> (65536 :: 64 word) \<noteq> NULL
   \<and> (\<exists>g'. stress_shared_heap_dup_const True True False ''abc'' heap_4k = Some (65544, g')
          \<and> str (mem g' 65536) = ''abc'' \<and> str_list_head g' = NULL
          \<and> (\<exists>g2. stress_shared_heap_dup_const True True True ''abc'' g' = Some (65560, g2)))"
proof -
  have h1: "heap_inv heap_4k []" by (rule heap_4k_inv)
  have h2: "length ''abc'' + 9 < (2::nat) ^ 63" by simp
  have h3: "str_list_find (mem heap_4k) (str_list_head heap_4k) ''abc'' = Some None"
    by (simp add: str_list_find.simps heap_4k_def)
  have h4: "stress_shared_heap_malloc True (of_nat (length ''abc'') + 1 + sizeof_ptr) heap_4k
        = (65536, heap_4k\<lparr>offset := 16\<rparr>)"
    by (simp add: stress_shared_heap_malloc_def heap_4k_def Let_def sizeof_ptr_def word_sless_alt)
  have h5: "(65536 :: 64 word) \<noteq> NULL" by (simp add: NULL_def)
  define g' where "g' = heap_4k\<lparr>offset := 16,
      mem := (mem heap_4k)(65536 := \<lparr>next_str = NULL, str = ''abc''\<rparr>)\<rparr>"
  define g2 where "g2 = g'\<lparr>offset := 32,
      mem := (mem g')(65552 := \<lparr>next_str = NULL, str = ''abc''\<rparr>),
      str_list_head := 65552\<rparr>"
  have d: "stress_shared_heap_dup_const True True False ''abc'' heap_4k = Some (65544, g')"
    by (simp add: stress_shared_heap_dup_const_def stress_shared_heap_malloc_def heap_4k_def
          g'_def str_list_find.simps Let_def sizeof_ptr_def word_sless_alt NULL_def)
  have d2: "stress_shared_heap_dup_const True True True ''abc'' g' = Some (65560, g2)"
    by (simp add: stress_shared_heap_dup_const_def stress_shared_heap_malloc_def heap_4k_def
          g'_def g2_def str_list_find.simps Let_def sizeof_ptr_def word_sless_alt NULL_def)
  have s8: "(65536 :: 64 word) + sizeof_ptr = 65544" by (simp add: sizeof_ptr_def)
  from dup_const_second_lock_fails [OF h1 h2 h3 h4 h5]
  have "str (mem g' 65536) = ''abc'' \<and> str_list_head g' = NULL"
    using d by (auto simp: s8 heap_4k_def)
  then show ?thesis using h1 h2 h3 h4 h5 d d2 by blast
qed

section \<open>Properties of the calls on bad addresses\<close>

lemma WEXITSTATUS_exited: "WEXITSTATUS (wait_status (Exited n)) = n AND 255"
proof -
  have "drop_bit 8 (push_bit 8 (n AND mask 8) AND push_bit 8 (mask 8)) = n AND mask 8"
    by (rule bit_word_eqI) (auto simp: bit_simps)
  moreover have "(mask 8 :: cint) = 255" "push_bit 8 (mask 8 :: cint) = 65280"
    by (simp_all add: mask_eq_exp_minus_1)
  ultimately show ?thesis by (simp add: WEXITSTATUS_def wait_status_def)
qed

lemma unat_and_255: "unat ((n :: cint) AND 255) = unat n mod 256"
proof -
  have "(255 :: cint) = mask 8" by (simp add: mask_eq_exp_minus_1)
  then have "n AND 255 = take_bit 8 n" by (simp only: take_bit_eq_mask)
  then have "unat (n AND 255) = take_bit 8 (unat n)" by (simp only: unsigned_take_bit_eq)
  then show ?thesis by (simp add: take_bit_eq_mod)
qed

lemma setup_ok_child:
  "stress_do_syscall_child setup_ok bad_syscall a =
    (case bad_syscall a of
       Returns ret errno \<Rightarrow> Exited (if ret <s 0 then errno else ret)
     | Signal sig \<Rightarrow> deliver sig)"
  by (simp add: stress_do_syscall_child_def setup_ok_def sigs_def word_sless_alt)

text \<open>
  Claim C3, as the code has it. In a child whose preparations succeeded,
  once the operation is invoked: when it returns a non-negative value the
  child calls \<open>_exit\<close> with that value, so its exit status is the low
  eight bits of the value, which is 0 when the operation returns 0; when it
  returns a negative value the child calls \<open>_exit\<close> with \<open>errno\<close>; when
  it hangs, the interval timer delivers \<open>SIGALRM\<close> and
  \<open>stress_badhandler\<close> exits with status 1.
\<close>

theorem child_exit_code:
  assumes "\<not> drop_capabilities setup <s 0"
    and "\<not> list_ex (\<lambda>sig. sighandler setup sig <s 0) sigs"
    and "\<not> setitimer setup <s 0"
  shows "(bad_syscall a = Returns ret errno \<and> \<not> ret <s 0
            \<longrightarrow> stress_do_syscall_child setup bad_syscall a = Exited ret
                \<and> WEXITSTATUS (wait_status (stress_do_syscall_child setup bad_syscall a))
                    = ret AND 255)
     \<and> (bad_syscall a = Returns ret errno \<and> ret <s 0
            \<longrightarrow> stress_do_syscall_child setup bad_syscall a = Exited errno
                \<and> WEXITSTATUS (wait_status (stress_do_syscall_child setup bad_syscall a))
                    = errno AND 255)
     \<and> (bad_syscall a = hangs
            \<longrightarrow> stress_do_syscall_child setup bad_syscall a = Exited EXIT_FAILURE
                \<and> WEXITSTATUS (wait_status (stress_do_syscall_child setup bad_syscall a)) = 1)
     \<and> (bad_syscall a = Returns 0 errno
            \<longrightarrow> WEXITSTATUS (wait_status (stress_do_syscall_child setup bad_syscall a)) = 0)"
proof -
  have c: "stress_do_syscall_child setup bad_syscall a =
    (case bad_syscall a of
       Returns ret errno \<Rightarrow> Exited (if ret <s 0 then errno else ret)
     | Signal sig \<Rightarrow> deliver sig)"
    using assms by (simp add: stress_do_syscall_child_def)
  have h: "deliver SIGALRM = Exited EXIT_FAILURE"
    by (simp add: deliver_def sigs_def stress_badhandler_def EXIT_FAILURE_def)
  have z: "\<not> (0 :: cint) <s 0" by (simp add: word_sless_alt)
  show ?thesis
    unfolding c
    by (auto simp: hangs_def h WEXITSTATUS_exited EXIT_FAILURE_def z)
qed

theorem child_exit_code_witness:
  "\<not> drop_capabilities setup_ok <s 0
   \<and> \<not> list_ex (\<lambda>sig. sighandler setup_ok sig <s 0) sigs
   \<and> \<not> setitimer setup_ok <s 0
   \<and> bad_time time_1700000001 (unaligned_addr data_at) = Returns 1700000001 0
   \<and> \<not> (1700000001 :: cint) <s 0
   \<and> stress_do_syscall_child setup_ok (bad_time time_1700000001) (unaligned_addr data_at)
        = Exited 1700000001
   \<and> WEXITSTATUS (wait_status
        (stress_do_syscall_child setup_ok (bad_time time_1700000001) (unaligned_addr data_at)))
        = 1
   \<and> bad_open open_efault null_addr = Returns (- 1) 14 \<and> (- 1 :: cint) <s 0
   \<and> stress_do_syscall_child setup_ok (bad_open open_efault) null_addr = Exited 14
   \<and> WEXITSTATUS (wait_status
        (stress_do_syscall_child setup_ok (bad_open open_efault) null_addr)) = 14
   \<and> never_returns null_addr = hangs
   \<and> stress_do_syscall_child setup_ok never_returns null_addr = Exited EXIT_FAILURE
   \<and> WEXITSTATUS (wait_status (stress_do_syscall_child setup_ok never_returns null_addr)) = 1
   \<and> returns_0 null_addr = Returns 0 0
   \<and> WEXITSTATUS (wait_status (stress_do_syscall_child setup_ok returns_0 null_addr)) = 0"
proof -
  have h1: "\<not> drop_capabilities setup_ok <s 0" by (simp add: setup_ok_def)
  have h2: "\<not> list_ex (\<lambda>sig. sighandler setup_ok sig <s 0) sigs"
    by (simp add: setup_ok_def sigs_def)
  have h3: "\<not> setitimer setup_ok <s 0" by (simp add: setup_ok_def)
  have o: "bad_time time_1700000001 (unaligned_addr data_at) = Returns 1700000001 0"
    "\<not> (1700000001 :: cint) <s 0"
    by (simp_all add: bad_time_def time_1700000001_def unaligned_addr_def data_at_def
          word_sless_alt)
  have r: "bad_open open_efault null_addr = Returns (- 1) 14"
    "(- 1 :: cint) <s 0"
    by (simp_all add: bad_open_def open_efault_def word_sless_alt)
  have n: "never_returns null_addr = hangs" by (simp add: never_returns_def)
  have z: "returns_0 null_addr = Returns 0 0" by (simp add: returns_0_def)
  have m: "(1700000001 :: cint) AND 255 = 1" "(14 :: cint) AND 255 = 14" by simp_all
  have a: "stress_do_syscall_child setup_ok (bad_time time_1700000001) (unaligned_addr data_at)
        = Exited 1700000001
     \<and> WEXITSTATUS (wait_status
        (stress_do_syscall_child setup_ok (bad_time time_1700000001) (unaligned_addr data_at)))
        = 1"
    using child_exit_code [OF h1 h2 h3, of "bad_time time_1700000001" "unaligned_addr data_at"
        1700000001 0] o
    unfolding m by blast
  have b: "stress_do_syscall_child setup_ok (bad_open open_efault) null_addr = Exited 14
     \<and> WEXITSTATUS (wait_status
        (stress_do_syscall_child setup_ok (bad_open open_efault) null_addr)) = 14"
    using child_exit_code [OF h1 h2 h3, of "bad_open open_efault" null_addr "- 1" 14] r
    unfolding m by blast
  have c: "stress_do_syscall_child setup_ok never_returns null_addr = Exited EXIT_FAILURE
     \<and> WEXITSTATUS (wait_status (stress_do_syscall_child setup_ok never_returns null_addr)) = 1"
    using child_exit_code [OF h1 h2 h3, of never_returns null_addr] n by blast
  have d: "WEXITSTATUS (wait_status (stress_do_syscall_child setup_ok returns_0 null_addr)) = 0"
    using child_exit_code [OF h1 h2 h3, of returns_0 null_addr _ 0] z by blast
  show ?thesis using h1 h2 h3 o r n z a b c d by blast
qed

text \<open>
  Claim C3 as stated fails: \<open>bad_time\<close> on the address that
  \<open>unaligned_addr\<close> makes, which lies in writable memory, succeeds and
  returns the time, 1700000001; the child calls \<open>_exit\<close> with it, and its
  exit status is 1, not 0.
\<close>

theorem child_exit_status_counterexample:
  "bad_time time_1700000001 (unaligned_addr data_at) = Returns 1700000001 0
   \<and> \<not> (1700000001 :: cint) <s 0
   \<and> stress_do_syscall_child setup_ok (bad_time time_1700000001) (unaligned_addr data_at)
        = Exited 1700000001
   \<and> WEXITSTATUS (wait_status
        (stress_do_syscall_child setup_ok (bad_time time_1700000001) (unaligned_addr data_at)))
        = 1
   \<and> (1 :: cint) \<noteq> 0"
  by (simp add: setup_ok_child bad_time_def time_1700000001_def unaligned_addr_def data_at_def
        word_sless_alt WEXITSTATUS_exited)

text \<open>
  Claim C10. When the parent reaps a child that exited with code \<open>n\<close>, the
  value \<open>stress_do_syscall\<close> returns is \<open>n\<close> modulo 256; two exit codes
  congruent modulo 256 give the same return value; a child that exits with
  1024, the count of a full read, gives the return value 0 of a child that
  exits with 0.
\<close>

theorem trial_rc_mod_256:
  assumes "t_keep_stressing env" and "fork_ok env" and "\<not> first_wait_fails env"
    and "stress_do_syscall_child (child env) bad_syscall a = Exited n"
  shows "stress_do_syscall env count bad_syscall a = Return (n AND 255) (count + 1)
     \<and> unat (n AND 255) = unat n mod 256
     \<and> (stress_do_syscall_child (child env) bad_syscall' a' = Exited n'
          \<and> unat n' mod 256 = unat n mod 256
          \<longrightarrow> stress_do_syscall env count bad_syscall' a'
                = stress_do_syscall env count bad_syscall a)
     \<and> (n = 1024 \<and> stress_do_syscall_child (child env) bad_syscall' a' = Exited 0
          \<longrightarrow> stress_do_syscall env count bad_syscall a = Return 0 (count + 1)
              \<and> stress_do_syscall env count bad_syscall' a' = Return 0 (count + 1))"
proof -
  have rc: "stress_do_syscall env count f x = Return (k AND 255) (count + 1)"
    if "stress_do_syscall_child (child env) f x = Exited k" for f x k
    using assms(1-3) that by (simp add: stress_do_syscall_def Let_def WEXITSTATUS_exited)
  have eq: "k AND 255 = n AND 255" if "unat k mod 256 = unat n mod 256" for k :: cint
  proof -
    have "unat (k AND 255) = unat (n AND 255)" using that by (simp only: unat_and_255)
    then show ?thesis by (simp only: word_unat_eq_iff)
  qed
  have z: "(1024 :: cint) AND 255 = 0" "(0 :: cint) AND 255 = 0" by simp_all
  show ?thesis
    using rc [OF assms(4)] rc [of bad_syscall' a' n'] rc [of bad_syscall' a' 0] eq [of n'] z
    by (auto simp: unat_and_255)
qed

theorem trial_rc_mod_256_witness:
  "t_keep_stressing env_ok \<and> fork_ok env_ok \<and> \<not> first_wait_fails env_ok
   \<and> stress_do_syscall_child (child env_ok) (bad_read (Returns 3 0) read_1024) 0 = Exited 1024
   \<and> stress_do_syscall_child (child env_ok) returns_0 0 = Exited 0
   \<and> unat (0 :: cint) mod 256 = unat (1024 :: cint) mod 256
   \<and> stress_do_syscall env_ok 0 (bad_read (Returns 3 0) read_1024) 0 = Return 0 1
   \<and> stress_do_syscall env_ok 0 returns_0 0 = Return 0 1"
proof -
  have h1: "t_keep_stressing env_ok" and h2: "fork_ok env_ok"
    and h3: "\<not> first_wait_fails env_ok"
    by (simp_all add: env_ok_def)
  have h4: "stress_do_syscall_child (child env_ok) (bad_read (Returns 3 0) read_1024) 0
      = Exited 1024"
    by (simp add: env_ok_def setup_ok_child bad_read_def read_1024_def word_sless_alt)
  have h5: "stress_do_syscall_child (child env_ok) returns_0 0 = Exited 0"
    by (simp add: env_ok_def setup_ok_child returns_0_def word_sless_alt)
  have h6: "unat (0 :: cint) mod 256 = unat (1024 :: cint) mod 256" by simp
  show ?thesis
    using trial_rc_mod_256 [OF h1 h2 h3 h4, of 0 returns_0 0 0] h1 h2 h3 h4 h5 h6
    by simp
qed

section \<open>Properties of the walker\<close>

subsection \<open>The write probe of the workers\<close>

lemma sys_rw_drain_write:
  "list_ex is_write_probe (snd (sys_rw_drain ps)) = list_ex is_write_probe ps"
  by (simp add: sys_rw_drain_def)

lemma sys_rw_next_write:
  "list_ex is_write_probe (snd (sys_rw_next e ps)) = list_ex is_write_probe ps"
  by (simp add: sys_rw_next_def sys_rw_drain_write)

lemma sys_rw_err_write:
  "\<not> writeable c \<Longrightarrow> list_ex is_write_probe (snd (sys_rw_err c e ps)) = list_ex is_write_probe ps"
  by (simp add: sys_rw_err_def Let_def sys_rw_next_write)

lemma read_loop_write:
  "\<not> list_ex is_write_probe acc \<Longrightarrow> \<not> list_ex is_write_probe (snd (snd (read_loop rs k i acc)))"
proof (induction rs k i acc rule: read_loop.induct)
  case (1 rs k i acc)
  show ?case
    using "1.prems" "1.IH"
    by (subst read_loop.simps) (auto simp: Let_def)
qed

lemma at_i_probes: "snd (snd (at_i i r)) = snd r"
  by (simp add: at_i_def)

lemma sys_rw_tail_write:
  assumes nw: "\<not> writeable c" and ps: "\<not> list_ex is_write_probe ps"
  shows "\<not> list_ex is_write_probe (snd (snd
     (let ps1 = ps @ (if it_verify e then [Fstat] else []) @ [Close]
          in if it_over_threshold2 e then at_i i1 (sys_rw_next e ps1)
             else if it_open2 e <s 0
               then at_i i1 (sys_rw_next e (ps1 @ [Open_rdonly (it_path e)]))
             else let ps3 = ps1 @ [Open_rdonly (it_path e), Read 0]
                  in if it_read0 e < 0 then at_i i1 (sys_rw_err c e ps3)
                     else if it_over_threshold3 e then at_i i1 (sys_rw_next e ps3)
                     else if it_kmsg_drain2 e then at_i i1 (sys_rw_drain (ps3 @ [Close]))
                     else if badbuf c \<noteq> NULL \<and> it_read_badbuf e < 0
                       then at_i i1 (sys_rw_err c e (ps3 @ [Read_badbuf]))
                     else let ps4 = ps3 @ (if badbuf c \<noteq> NULL then [Read_badbuf] else [])
                          in if it_kmsg_drain3 e then at_i i1 (sys_rw_drain (ps4 @ [Close]))
                             else at_i i1 (sys_rw_err c e ps4))))"
  using ps
  by (simp add: Let_def at_i_probes sys_rw_next_write sys_rw_drain_write
        sys_rw_err_write [OF nw])

lemma sys_rw_body_write:
  assumes nw: "\<not> writeable c"
  shows "\<not> list_ex is_write_probe (snd (snd (sys_rw_body c e i)))"
proof -
  have rl: "\<not> list_ex is_write_probe (snd (snd (read_loop (it_reads e) 0 i [Open_rdonly (it_path e)])))"
    by (rule read_loop_write) simp
  obtain x i1 ps where r: "read_loop (it_reads e) 0 i [Open_rdonly (it_path e)] = (x, i1, ps)"
    by (cases "read_loop (it_reads e) 0 i [Open_rdonly (it_path e)]")
  have ps: "\<not> list_ex is_write_probe ps" using rl r by simp
  show ?thesis
  proof (cases x)
    case Loop_done
    show ?thesis
      unfolding sys_rw_body_def r Loop_done
      using sys_rw_tail_write [OF nw ps, of e i1]
      by (simp add: at_i_probes sys_rw_next_write)
  next
    case Goto_drain
    show ?thesis
      unfolding sys_rw_body_def r Goto_drain
      using ps by (simp add: at_i_probes sys_rw_next_write sys_rw_drain_write)
  next
    case Goto_next
    show ?thesis
      unfolding sys_rw_body_def r Goto_next
      using ps by (simp add: at_i_probes sys_rw_next_write sys_rw_drain_write)
  qed
qed

lemma sys_rw_loop_write:
  assumes "\<not> writeable c"
  shows "\<not> list_ex is_write_probe (sys_rw_loop n c env k i)"
proof (induction n arbitrary: k i)
  case 0
  show ?case by simp
next
  case (Suc n)
  obtain x i1 ps where b: "sys_rw_body c (env k) i = (x, i1, ps)"
    by (cases "sys_rw_body c (env k) i")
  have "\<not> list_ex is_write_probe ps" using sys_rw_body_write [OF assms, of "env k" i] b by simp
  then show ?case using Suc.IH [of "k + 1" i1] by (cases x) (simp_all add: b)
qed

lemma rw_user_ok: "stress_sys_rw 1 (stress_sysfs_ctxt setup_user) env_all_ok
  = [Open_rdonly dummy_path, Read 100, Close, Open_rdonly dummy_path, Read 0, Read_badbuf,
     Close, Open_wronly dummy_path, Write 0, Close]"
  by (simp add: stress_sys_rw_def sys_rw_body_def env_all_ok_def it_all_ok_def setup_user_def
        stress_sysfs_ctxt_def short_read_def SYS_BUF_SZ_def Let_def at_i_def sys_rw_err_def
        sys_rw_next_def sys_rw_drain_def dummy_path_def NULL_def word_sless_alt)

lemma rw_user_open_fails: "stress_sys_rw 3 (stress_sysfs_ctxt setup_user) env_open_fails
  = [Open_rdonly dummy_path, Open_rdonly dummy_path, Open_rdonly dummy_path]"
  by (simp add: stress_sys_rw_def sys_rw_body_def env_open_fails_def it_open_fails_def
        it_all_ok_def setup_user_def numeral_3_eq_3
        stress_sysfs_ctxt_def Let_def at_i_def
        sys_rw_next_def sys_rw_drain_def dummy_path_def NULL_def word_sless_alt)

declare read_loop.simps [simp del]

lemma sys_rw_next_mem:
  "p \<noteq> Usleep_drain \<Longrightarrow> p \<in> set (snd (sys_rw_next e ps)) \<longleftrightarrow> p \<in> set ps"
  by (simp add: sys_rw_next_def sys_rw_drain_def)

lemma sys_rw_drain_mem:
  "p \<noteq> Usleep_drain \<Longrightarrow> p \<in> set (snd (sys_rw_drain ps)) \<longleftrightarrow> p \<in> set ps"
  by (simp add: sys_rw_drain_def)

lemma sys_rw_err_Write:
  "Write 0 \<in> set (snd (sys_rw_err c e ps))
   \<longleftrightarrow> Write 0 \<in> set ps \<or> writeable c \<and> \<not> it_over_threshold4 e \<and> \<not> it_open3 e <s 0"
  by (simp add: sys_rw_err_def Let_def sys_rw_next_mem)

lemma sys_rw_err_Open_wronly:
  "Open_wronly q \<in> set (snd (sys_rw_err c e ps))
   \<longleftrightarrow> Open_wronly q \<in> set ps \<or> writeable c \<and> \<not> it_over_threshold4 e \<and> q = it_path e"
  by (auto simp: sys_rw_err_def Let_def sys_rw_next_mem)

lemma read_loop_reads:
  "p \<in> set (snd (snd (read_loop rs k i acc))) \<Longrightarrow> p \<in> set acc \<or> p = Close \<or> (\<exists>n. p = Read n)"
proof (induction rs k i acc rule: read_loop.induct)
  case (1 rs k i acc)
  show ?case
    using "1.prems" "1.IH"
    by (subst (asm) read_loop.simps) (auto simp: Let_def split: if_splits)
qed

lemma sys_rw_tail_probe:
  assumes p: "p = Write 0 \<or> p = Open_wronly (it_path e)" and ps: "p \<notin> set ps"
  shows "p \<in> set (snd (snd
     (let ps1 = ps @ (if it_verify e then [Fstat] else []) @ [Close]
          in if it_over_threshold2 e then at_i i1 (sys_rw_next e ps1)
             else if it_open2 e <s 0
               then at_i i1 (sys_rw_next e (ps1 @ [Open_rdonly (it_path e)]))
             else let ps3 = ps1 @ [Open_rdonly (it_path e), Read 0]
                  in if it_read0 e < 0 then at_i i1 (sys_rw_err c e ps3)
                     else if it_over_threshold3 e then at_i i1 (sys_rw_next e ps3)
                     else if it_kmsg_drain2 e then at_i i1 (sys_rw_drain (ps3 @ [Close]))
                     else if badbuf c \<noteq> NULL \<and> it_read_badbuf e < 0
                       then at_i i1 (sys_rw_err c e (ps3 @ [Read_badbuf]))
                     else let ps4 = ps3 @ (if badbuf c \<noteq> NULL then [Read_badbuf] else [])
                          in if it_kmsg_drain3 e then at_i i1 (sys_rw_drain (ps4 @ [Close]))
                             else at_i i1 (sys_rw_err c e ps4))))
   \<longleftrightarrow> writeable c \<and> \<not> it_over_threshold2 e \<and> \<not> it_open2 e <s 0
     \<and> (it_read0 e < 0
          \<or> \<not> it_over_threshold3 e \<and> \<not> it_kmsg_drain2 e
             \<and> (badbuf c \<noteq> NULL \<and> it_read_badbuf e < 0 \<or> \<not> it_kmsg_drain3 e))
     \<and> \<not> it_over_threshold4 e \<and> (p = Write 0 \<longrightarrow> \<not> it_open3 e <s 0)"
proof -
  have n: "p \<noteq> Usleep_drain" using p by auto
  from p show ?thesis
  proof
    assume w: "p = Write 0"
    show ?thesis using ps unfolding w
      by (simp add: Let_def at_i_probes sys_rw_next_mem sys_rw_drain_mem sys_rw_err_Write)
  next
    assume w: "p = Open_wronly (it_path e)"
    show ?thesis using ps unfolding w
      by (simp add: Let_def at_i_probes sys_rw_next_mem sys_rw_drain_mem sys_rw_err_Open_wronly)
  qed
qed


lemma sys_rw_body_probe:
  assumes p: "p = Write 0 \<or> p = Open_wronly (it_path e)"
  shows "p \<in> set (snd (snd (sys_rw_body c e i)))
     \<longleftrightarrow> writeable c \<and> reaches_write_stage c e i \<and> (p = Write 0 \<longrightarrow> \<not> it_open3 e <s 0)"
proof -
  have n: "p \<noteq> Usleep_drain" using p by auto
  have rl: "p \<notin> set (snd (snd (read_loop (it_reads e) 0 i [Open_rdonly (it_path e)])))"
    using read_loop_reads [of p "it_reads e" 0 i "[Open_rdonly (it_path e)]"] p by auto
  obtain x i1 ps where r: "read_loop (it_reads e) 0 i [Open_rdonly (it_path e)] = (x, i1, ps)"
    by (cases "read_loop (it_reads e) 0 i [Open_rdonly (it_path e)]")
  have ps: "p \<notin> set ps" using rl r by simp
  have q: "p \<noteq> Open_rdonly (it_path e)" "p \<noteq> Close" using p by auto
  show ?thesis
  proof (cases x)
    case Loop_done
    show ?thesis
      unfolding sys_rw_body_def reaches_write_stage_def r Loop_done
      using sys_rw_tail_probe [OF p ps, of i1 c] q
      by (simp add: at_i_probes sys_rw_next_mem [OF n])
  next
    case Goto_drain
    show ?thesis
      unfolding sys_rw_body_def reaches_write_stage_def r Goto_drain
      using ps q by (simp add: at_i_probes sys_rw_next_mem [OF n] sys_rw_drain_mem [OF n])
  next
    case Goto_next
    show ?thesis
      unfolding sys_rw_body_def reaches_write_stage_def r Goto_next
      using ps q by (simp add: at_i_probes sys_rw_next_mem [OF n] sys_rw_drain_mem [OF n])
  qed
qed

lemma sys_rw_loop_from:
  "sys_rw_i k c env = Some i \<Longrightarrow> k \<le> n
   \<Longrightarrow> \<exists>pre. sys_rw_loop n c env 0 0 = pre @ sys_rw_loop (n - k) c env k i"
proof (induction k arbitrary: i)
  case 0
  then show ?case by simp
next
  case (Suc k)
  from Suc.prems(1) obtain i0 where i0: "sys_rw_i k c env = Some i0"
    by (auto split: option.splits)
  have g: "it_keep_stressing_flag (env k) \<and> \<not> it_segv_abort (env k)"
    using Suc.prems(1) i0 by (auto split: if_splits)
  obtain x i1 ps where b: "sys_rw_body c (env k) i0 = (x, i1, ps)"
    by (cases "sys_rw_body c (env k) i0")
  have x: "x = Continue" "i1 = i"
    using Suc.prems(1) i0 g b by (auto split: iter_exit.splits)
  from Suc.IH [OF i0] Suc.prems(2)
  obtain pre where pre: "sys_rw_loop n c env 0 0 = pre @ sys_rw_loop (n - k) c env k i0"
    by auto
  have nk: "n - k = Suc (n - Suc k)" using Suc.prems(2) by simp
  have "sys_rw_loop (n - k) c env k i0 = ps @ sys_rw_loop (n - Suc k) c env (Suc k) i"
    unfolding nk using g b x by simp
  then show ?case using pre by simp
qed

lemma sys_rw_loop_iteration:
  assumes "sys_rw_i k c env = Some i" and "k < n"
    and "it_keep_stressing_flag (env k)" and "\<not> it_segv_abort (env k)"
  shows "set (snd (snd (sys_rw_body c (env k) i))) \<subseteq> set (stress_sys_rw n c env)"
proof -
  from sys_rw_loop_from [OF assms(1), of n] assms(2)
  obtain pre where pre: "sys_rw_loop n c env 0 0 = pre @ sys_rw_loop (n - k) c env k i"
    by auto
  have nk: "n - k = Suc (n - Suc k)" using assms(2) by simp
  obtain x i1 ps where b: "sys_rw_body c (env k) i = (x, i1, ps)"
    by (cases "sys_rw_body c (env k) i")
  have "set ps \<subseteq> set (sys_rw_loop (n - k) c env k i)"
    unfolding nk using assms(3,4) b by (cases x) auto
  then show ?thesis unfolding stress_sys_rw_def pre using b by auto
qed

lemma sys_rw_i_0: "sys_rw_i 0 c env = Some 0"
  by simp

text \<open>
  Claim C8, as the code has it. A write probe of a worker (an \<open>open\<close> for
  writing or a \<open>write\<close>) is attempted only if the effective user id is not
  0; a run as root makes no write probe of any kind, in any number of
  iterations. With an effective user id other than 0, an iteration makes
  the zero-length \<open>write\<close> exactly when it reaches the write stage and the
  \<open>open\<close> for writing succeeds, and it attempts that \<open>open\<close> exactly when
  it reaches the write stage; and the \<open>write\<close> of every such iteration of
  a run is among the probes of the run.
\<close>

theorem write_probe_only_if_not_root:
  "(list_ex is_write_probe (stress_sys_rw n (stress_sysfs_ctxt s) env) \<longrightarrow> ss_geteuid s \<noteq> 0)
   \<and> (ss_geteuid s = 0 \<longrightarrow> \<not> list_ex is_write_probe (stress_sys_rw n (stress_sysfs_ctxt s) env))
   \<and> (Write 0 \<in> set (snd (snd (sys_rw_body (stress_sysfs_ctxt s) e i)))
        \<longleftrightarrow> ss_geteuid s \<noteq> 0 \<and> reaches_write_stage (stress_sysfs_ctxt s) e i
            \<and> \<not> it_open3 e <s 0)
   \<and> (Open_wronly (it_path e) \<in> set (snd (snd (sys_rw_body (stress_sysfs_ctxt s) e i)))
        \<longleftrightarrow> ss_geteuid s \<noteq> 0 \<and> reaches_write_stage (stress_sysfs_ctxt s) e i)
   \<and> (sys_rw_i k (stress_sysfs_ctxt s) env = Some j \<and> k < n
        \<and> it_keep_stressing_flag (env k) \<and> \<not> it_segv_abort (env k)
        \<and> ss_geteuid s \<noteq> 0 \<and> reaches_write_stage (stress_sysfs_ctxt s) (env k) j
        \<and> \<not> it_open3 (env k) <s 0
      \<longrightarrow> Write 0 \<in> set (stress_sys_rw n (stress_sysfs_ctxt s) env))"
proof -
  have w: "writeable (stress_sysfs_ctxt s) = (ss_geteuid s \<noteq> 0)"
    by (simp add: stress_sysfs_ctxt_def)
  have r: "\<not> list_ex is_write_probe (stress_sys_rw n (stress_sysfs_ctxt s) env)"
    if "ss_geteuid s = 0"
    unfolding stress_sys_rw_def
    by (rule sys_rw_loop_write) (simp add: stress_sysfs_ctxt_def that)
  have b1: "Write 0 \<in> set (snd (snd (sys_rw_body (stress_sysfs_ctxt s) e i)))
        \<longleftrightarrow> ss_geteuid s \<noteq> 0 \<and> reaches_write_stage (stress_sysfs_ctxt s) e i
            \<and> \<not> it_open3 e <s 0" for e i
    using sys_rw_body_probe [of "Write 0" e "stress_sysfs_ctxt s" i] by (simp add: w)
  have b2: "Open_wronly (it_path e) \<in> set (snd (snd (sys_rw_body (stress_sysfs_ctxt s) e i)))
        \<longleftrightarrow> ss_geteuid s \<noteq> 0 \<and> reaches_write_stage (stress_sysfs_ctxt s) e i"
    using sys_rw_body_probe [of "Open_wronly (it_path e)" e "stress_sysfs_ctxt s" i]
    by (simp add: w)
  have l: "Write 0 \<in> set (stress_sys_rw n (stress_sysfs_ctxt s) env)"
    if "sys_rw_i k (stress_sysfs_ctxt s) env = Some j" "k < n"
      "it_keep_stressing_flag (env k)" "\<not> it_segv_abort (env k)"
      "ss_geteuid s \<noteq> 0" "reaches_write_stage (stress_sysfs_ctxt s) (env k) j"
      "\<not> it_open3 (env k) <s 0"
    using sys_rw_loop_iteration [OF that(1-4)] b1 [of "env k" j] that(5-7) by blast
  show ?thesis using r b1 [of e i] b2 l by blast
qed


theorem write_probe_only_if_not_root_witness:
  "list_ex is_write_probe (stress_sys_rw 1 (stress_sysfs_ctxt setup_user) env_all_ok)
   \<and> ss_geteuid setup_user \<noteq> 0
   \<and> ss_geteuid setup_root = 0
   \<and> \<not> list_ex is_write_probe (stress_sys_rw 1 (stress_sysfs_ctxt setup_root) env_all_ok)
   \<and> reaches_write_stage (stress_sysfs_ctxt setup_user) it_all_ok 0
   \<and> \<not> it_open3 it_all_ok <s 0
   \<and> Write 0 \<in> set (snd (snd (sys_rw_body (stress_sysfs_ctxt setup_user) it_all_ok 0)))
   \<and> Open_wronly (it_path it_all_ok)
        \<in> set (snd (snd (sys_rw_body (stress_sysfs_ctxt setup_user) it_all_ok 0)))
   \<and> \<not> reaches_write_stage (stress_sysfs_ctxt setup_user) it_open_fails 0
   \<and> Write 0 \<notin> set (snd (snd (sys_rw_body (stress_sysfs_ctxt setup_user) it_open_fails 0)))
   \<and> Write 0 \<notin> set (snd (snd (sys_rw_body (stress_sysfs_ctxt setup_root) it_all_ok 0)))
   \<and> sys_rw_i 0 (stress_sysfs_ctxt setup_user) env_all_ok = Some 0 \<and> (0 :: nat) < 1
   \<and> it_keep_stressing_flag (env_all_ok 0) \<and> \<not> it_segv_abort (env_all_ok 0)
   \<and> Write 0 \<in> set (stress_sys_rw 1 (stress_sysfs_ctxt setup_user) env_all_ok)"
proof -
  have w: "list_ex is_write_probe (stress_sys_rw 1 (stress_sysfs_ctxt setup_user) env_all_ok)"
    unfolding rw_user_ok by simp
  have u: "ss_geteuid setup_user \<noteq> 0" by (simp add: setup_user_def)
  have r: "ss_geteuid setup_root = 0" by (simp add: setup_root_def)
  have rl: "read_loop (\<lambda>k. short_read) 0 0 [Open_rdonly dummy_path]
      = (Loop_done, 0, [Open_rdonly dummy_path, Read 100])"
    by (subst read_loop.simps) (simp add: short_read_def SYS_BUF_SZ_def Let_def)
  have s1: "reaches_write_stage (stress_sysfs_ctxt setup_user) it_all_ok 0"
  proof -
    have "dummy_path \<noteq> []" by (simp add: dummy_path_def)
    then show ?thesis
      by (simp add: reaches_write_stage_def it_all_ok_def rl word_sless_alt)
  qed
  have s2: "\<not> reaches_write_stage (stress_sysfs_ctxt setup_user) it_open_fails 0"
    by (simp add: reaches_write_stage_def it_open_fails_def it_all_ok_def word_sless_alt)
  have o: "\<not> it_open3 it_all_ok <s 0" by (simp add: it_all_ok_def word_sless_alt)
  have g: "it_keep_stressing_flag (env_all_ok 0)" "\<not> it_segv_abort (env_all_ok 0)"
    by (simp_all add: env_all_ok_def it_all_ok_def)
  have e: "env_all_ok 0 = it_all_ok" by (simp add: env_all_ok_def)
  note t1 = write_probe_only_if_not_root [of 1 setup_user env_all_ok it_all_ok 0 0 0]
  note t2 = write_probe_only_if_not_root [of 1 setup_root env_all_ok it_all_ok 0 0 0]
  note t3 = write_probe_only_if_not_root [of 1 setup_user env_all_ok it_open_fails 0 0 0]
  have a: "Write 0 \<in> set (snd (snd (sys_rw_body (stress_sysfs_ctxt setup_user) it_all_ok 0)))"
    "Open_wronly (it_path it_all_ok)
        \<in> set (snd (snd (sys_rw_body (stress_sysfs_ctxt setup_user) it_all_ok 0)))"
    using t1 u s1 o by blast+
  have b: "Write 0 \<notin> set (snd (snd (sys_rw_body (stress_sysfs_ctxt setup_user) it_open_fails 0)))"
    using t3 s2 by blast
  have c: "\<not> list_ex is_write_probe (stress_sys_rw 1 (stress_sysfs_ctxt setup_root) env_all_ok)"
    "Write 0 \<notin> set (snd (snd (sys_rw_body (stress_sysfs_ctxt setup_root) it_all_ok 0)))"
    using t2 r by blast+
  have d: "Write 0 \<in> set (stress_sys_rw 1 (stress_sysfs_ctxt setup_user) env_all_ok)"
    using t1 sys_rw_i_0 [of "stress_sysfs_ctxt setup_user" env_all_ok] g u s1 o unfolding e by simp
  show ?thesis
    using w u r s1 o a s2 b c sys_rw_i_0 [of "stress_sysfs_ctxt setup_user" env_all_ok] g d by simp
qed

text \<open>
  Claim C8 as stated fails in the direction from privilege to probe: as user
  1000, three iterations whose first \<open>open\<close> fails make no write probe.
\<close>

theorem write_probe_iff_counterexample:
  "ss_geteuid setup_user \<noteq> 0
   \<and> \<not> list_ex is_write_probe (stress_sys_rw 3 (stress_sysfs_ctxt setup_user) env_open_fails)"
  unfolding rw_user_open_fails by (simp add: setup_user_def)

subsection \<open>The traversal and the recovery from a fault\<close>


declare stress_sys_dir.simps [simp del] stress_sys_dir_loop.simps [simp del]









lemma stress_sys_dir_too_deep:
  "depth > 20 \<Longrightarrow> stress_sys_dir env path recurse depth st = Normal st"
  by (simp add: stress_sys_dir.simps)






text \<open>
  Claim C7. A call of \<open>stress_sys_dir\<close> with a depth above 20 returns at
  once with the state as it was, no entry visited; the recursive call made
  for a directory entry has the depth of its caller plus one; and every
  call of \<open>stress_sys_dir\<close> terminates, whatever \<open>scandir\<close> and \<open>stat\<close>
  answer, even in a namespace without end: the call lies in the domain of
  the recursion, by the measure on the depth left and the entries left.
\<close>

theorem traversal_depth_bounded:
  "(depth > 20 \<longrightarrow> stress_sys_dir env path recurse depth st = Normal st)
   \<and> (\<not> segv_abort st \<and> sys_keep_stressing env st \<and> \<not> sys_is_dot_filename env (d_name d)
        \<and> tmp = take (PATH_MAX - 1) (path @ ''/'' @ d_name d) \<and> \<not> stress_sys_skip tmp
        \<and> d_type d = DT_DIR \<and> recurse \<and> sys_stat env st tmp = Ret (Some st_mode)
        \<and> st_mode AND mode_flags \<noteq> 0
      \<longrightarrow> stress_sys_dir_loop env path recurse depth (d # ds) st
          = (case stress_sys_dir env tmp recurse (depth + 1) (inc_counter st) of
               Siglongjmp s \<Rightarrow> Siglongjmp s
             | Normal st' \<Rightarrow> stress_sys_dir_loop env path recurse depth ds st'))
   \<and> stress_sys_dir_stress_sys_dir_loop_dom (Inl (env, path, recurse, depth, st))"
proof (intro conjI impI)
  assume "depth > 20"
  then show "stress_sys_dir env path recurse depth st = Normal st"
    by (rule stress_sys_dir_too_deep)
next
  assume "\<not> segv_abort st \<and> sys_keep_stressing env st \<and> \<not> sys_is_dot_filename env (d_name d)
        \<and> tmp = take (PATH_MAX - 1) (path @ ''/'' @ d_name d) \<and> \<not> stress_sys_skip tmp
        \<and> d_type d = DT_DIR \<and> recurse \<and> sys_stat env st tmp = Ret (Some st_mode)
        \<and> st_mode AND mode_flags \<noteq> 0"
  then have f: "segv_abort st = False" "sys_keep_stressing env st = True"
    "sys_is_dot_filename env (d_name d) = False"
    "take (PATH_MAX - 1) (path @ ''/'' @ d_name d) = tmp" "stress_sys_skip tmp = False"
    "d_type d = DT_DIR" "recurse = True" "sys_stat env st tmp = Ret (Some st_mode)"
    "(st_mode AND mode_flags = 0) = False"
    by blast+
  show "stress_sys_dir_loop env path recurse depth (d # ds) st
          = (case stress_sys_dir env tmp recurse (depth + 1) (inc_counter st) of
               Siglongjmp s \<Rightarrow> Siglongjmp s
             | Normal st' \<Rightarrow> stress_sys_dir_loop env path recurse depth ds st')"
    unfolding stress_sys_dir_loop.simps(2) [of env path recurse depth d ds st]
    by (simp only: Let_def f if_False if_True not_False_eq_True not_True_eq_False
          d_type.case sys.case option.case)
next
  have "All stress_sys_dir_stress_sys_dir_loop_dom"
    by (relation "measures
       [\<lambda>x. case x of Inl (env, path, recurse, depth, st) \<Rightarrow>
                         (if depth > 20 then 0 else 2 * nat (21 - depth) + 3)
                      | Inr (env, path, recurse, depth, ds, st) \<Rightarrow> 2 * nat (21 - depth) + 2,
        \<lambda>x. case x of Inl _ \<Rightarrow> 0
                      | Inr (env, path, recurse, depth, ds, st) \<Rightarrow> length ds]")
     auto
  then show "stress_sys_dir_stress_sys_dir_loop_dom (Inl (env, path, recurse, depth, st))" ..
qed


lemma chain_walk:
  "stress_sys_dir fs_chain ''/sys'' True 0 walker0 = Normal (walker0\<lparr>counter := 21\<rparr>)"
  by (simp add: stress_sys_dir.simps stress_sys_dir_loop.simps fs_chain_def fs_fault_def
        walker0_def Let_def inc_counter_def stress_sys_skip_def PATH_MAX_def mode_flags_def)

theorem traversal_depth_bounded_witness:
  "(21 :: int) > 20
   \<and> stress_sys_dir fs_chain ''/sys'' True 21 walker0 = Normal walker0
   \<and> \<not> segv_abort walker0 \<and> sys_keep_stressing fs_chain walker0
   \<and> \<not> sys_is_dot_filename fs_chain (d_name dir_d)
   \<and> ''/sys/d'' = take (PATH_MAX - 1) (''/sys'' @ ''/'' @ d_name dir_d)
   \<and> \<not> stress_sys_skip ''/sys/d'' \<and> d_type dir_d = DT_DIR
   \<and> sys_stat fs_chain walker0 ''/sys/d'' = Ret (Some 493) \<and> (493 :: 32 word) AND mode_flags \<noteq> 0
   \<and> stress_sys_dir_loop fs_chain ''/sys'' True 20 [dir_d] walker0 = Normal (inc_counter walker0)
   \<and> stress_sys_dir fs_chain ''/sys'' True 0 walker0 = Normal (walker0\<lparr>counter := 21\<rparr>)"
proof -
  have h1: "(21 :: int) > 20" by simp
  have h2: "\<not> segv_abort walker0 \<and> sys_keep_stressing fs_chain walker0
     \<and> \<not> sys_is_dot_filename fs_chain (d_name dir_d)
     \<and> ''/sys/d'' = take (PATH_MAX - 1) (''/sys'' @ ''/'' @ d_name dir_d)
     \<and> \<not> stress_sys_skip ''/sys/d'' \<and> d_type dir_d = DT_DIR
     \<and> sys_stat fs_chain walker0 ''/sys/d'' = Ret (Some 493)
     \<and> (493 :: 32 word) AND mode_flags \<noteq> 0"
    by (simp add: walker0_def fs_chain_def fs_fault_def dir_d_def PATH_MAX_def
          stress_sys_skip_def mode_flags_def)
  have a: "stress_sys_dir fs_chain ''/sys'' True 21 walker0 = Normal walker0"
    using traversal_depth_bounded [of 21 fs_chain "''/sys''" True walker0] h1 by blast
  have b: "stress_sys_dir fs_chain ''/sys/d'' True (20 + 1) (inc_counter walker0)
      = Normal (inc_counter walker0)"
    using traversal_depth_bounded [of "20 + 1" fs_chain "''/sys/d''" True "inc_counter walker0"]
    by simp
  have c: "stress_sys_dir_loop fs_chain ''/sys'' True 20 [dir_d] walker0
      = (case stress_sys_dir fs_chain ''/sys/d'' True (20 + 1) (inc_counter walker0) of
               Siglongjmp s \<Rightarrow> Siglongjmp s
             | Normal st' \<Rightarrow> stress_sys_dir_loop fs_chain ''/sys'' True 20 [] st')"
    using traversal_depth_bounded [of 20 fs_chain "''/sys''" True walker0 dir_d "''/sys/d''" 493 "[]"]
      h2 by blast
  have d: "stress_sys_dir_loop fs_chain ''/sys'' True 20 [dir_d] walker0
      = Normal (inc_counter walker0)"
    unfolding c b by (simp add: stress_sys_dir_loop.simps)
  show ?thesis using h1 h2 a d chain_walk by blast
qed

















end
